theory Spec2Isabelle
  imports Complex_Main
begin

section \<open>Exceptions\<close>

text \<open>
  Every exception class that the modelled code paths can raise.  All of them derive from
  Python's \<^verbatim>\<open>Exception\<close>, so each is caught by the blanket handlers of the sources.
\<close>

datatype exn =
    InvalidOperation
  | Overflow
  | ZeroDivisionError
  | ValueError
  | IndexError
  | QiskitError

section \<open>The decimal module (diagdevice.py, lines 9--22)\<close>

text \<open>
  \<^verbatim>\<open>decimal.Decimal\<close> is a library type.  A finite decimal is a signed integer
  coefficient and an exponent, denoting \<open>dcoeff * 10 ^ dexp\<close>.  The operations below follow
  the library's reference implementation (\<^verbatim>\<open>_pydecimal\<close>): the exact result of an operation
  is rounded to the context precision by \<open>dec_fix\<close>.  Of the signals only
  \<^verbatim>\<open>InvalidOperation\<close>, \<^verbatim>\<open>DivisionByZero\<close> and \<^verbatim>\<open>Overflow\<close> are trapped in the default
  context, so only they become exceptions.
\<close>

record decimal =
  dcoeff :: int
  dexp :: int

record dec_context =
  prec :: nat
  Emax :: int
  Emin :: int

text \<open>
  The default context has \<^verbatim>\<open>Emax = 999999\<close>, \<^verbatim>\<open>Emin = -999999\<close> and rounding
  \<^verbatim>\<open>ROUND_HALF_EVEN\<close>; line 13 of diagdevice.py sets \<^verbatim>\<open>getcontext().prec = 100\<close>.
\<close>

definition getcontext :: dec_context where
  "getcontext = \<lparr>prec = 100, Emax = 999999, Emin = - 999999\<rparr>"

text \<open>\<^verbatim>\<open>len(str(c))\<close> for a non-negative integer \<open>c\<close>.\<close>

fun ndigits :: "nat \<Rightarrow> nat" where
  "ndigits c = (if c < 10 then 1 else Suc (ndigits (c div 10)))"

declare ndigits.simps [simp del]

text \<open>
  Dropping the last \<open>k\<close> digits of a magnitude: whether the kept digits are incremented,
  for the two rounding modes the program uses.
\<close>

definition round_half_even_up :: "nat \<Rightarrow> nat \<Rightarrow> bool" where
  "round_half_even_up m k =
     (let q = m div 10 ^ k; r = m mod 10 ^ k
      in 2 * r > 10 ^ k \<or> (2 * r = 10 ^ k \<and> odd q))"

definition round_half_up_up :: "nat \<Rightarrow> nat \<Rightarrow> bool" where
  "round_half_up_up m k = (2 * (m mod 10 ^ k) \<ge> 10 ^ k)"

text \<open>\<^verbatim>\<open>Decimal._fix\<close>: round to the context precision, honouring the exponent range.\<close>

definition dec_fix :: "dec_context \<Rightarrow> decimal \<Rightarrow> exn + decimal" where
  "dec_fix ctx d =
     (let Etiny = Emin ctx - int (prec ctx) + 1;
          Etop = Emax ctx - int (prec ctx) + 1
      in if dcoeff d = 0 then
           Inr (d\<lparr>dexp := min (max (dexp d) Etiny) (Emax ctx)\<rparr>)
         else
           let m = nat \<bar>dcoeff d\<bar>;
               exp_min0 = int (ndigits m) + dexp d - int (prec ctx)
           in if exp_min0 > Etop then Inl Overflow
              else
                let exp_min = (if exp_min0 < Etiny then Etiny else exp_min0)
                in if dexp d < exp_min then
                     let k = nat (exp_min - dexp d);
                         coeff0 = m div 10 ^ k;
                         changed = round_half_even_up m k;
                         (coeff, e) =
                           (if changed then
                              (if ndigits (coeff0 + 1) > prec ctx
                               then ((coeff0 + 1) div 10, exp_min + 1)
                               else (coeff0 + 1, exp_min))
                            else (coeff0, exp_min))
                     in if e > Etop then Inl Overflow
                        else Inr \<lparr>dcoeff = sgn (dcoeff d) * int coeff, dexp = e\<rparr>
                   else Inr d)"

text \<open>\<^verbatim>\<open>Decimal(n)\<close> for a Python integer: exact, whatever the context.\<close>

definition Decimal :: "int \<Rightarrow> decimal" where
  "Decimal n = \<lparr>dcoeff = n, dexp = 0\<rparr>"

text \<open>
  The integer square root loop of \<^verbatim>\<open>Decimal.sqrt\<close>:
  \<^verbatim>\<open>while True: q = c//n; if n <= q: break; else: n = n + q >> 1\<close>.
\<close>

function sqrt_loop :: "nat \<Rightarrow> nat \<Rightarrow> exn + nat" where
  "sqrt_loop c n =
     (if n = 0 then Inl ZeroDivisionError
      else let q = c div n
           in if n \<le> q then Inr n else sqrt_loop c ((n + q) div 2))"
  by pat_completeness auto
termination
proof (relation "measure (\<lambda>(c, n). n)")
  show "wf (measure (\<lambda>(c, n). n))" by simp
next
  fix c n q :: nat
  assume "n \<noteq> 0" "q = c div n" "\<not> n \<le> q"
  then show "((c, (n + q) div 2), (c, n)) \<in> measure (\<lambda>(c, n). n)"
    by simp
qed

declare sqrt_loop.simps [simp del]

text \<open>
  \<^verbatim>\<open>Decimal.sqrt\<close>: correctly rounded (half even) to the context precision; an exact
  root is rescaled towards the ideal exponent.
\<close>

definition dec_sqrt :: "dec_context \<Rightarrow> decimal \<Rightarrow> exn + decimal" where
  "dec_sqrt ctx d =
     (if dcoeff d = 0 then dec_fix ctx \<lparr>dcoeff = 0, dexp = dexp d div 2\<rparr>
      else if dcoeff d < 0 then Inl InvalidOperation
      else
        let prec1 = prec ctx + 1;
            op_int = nat (dcoeff d);
            len = ndigits op_int;
            e = dexp d div 2;
            (c, l) = (if odd (dexp d) then (op_int * 10, len div 2 + 1)
                      else (op_int, (len + 1) div 2));
            shift = int prec1 - int l;
            (c', exact) =
              (if shift \<ge> 0 then (c * 100 ^ nat shift, True)
               else (c div 100 ^ nat (- shift), c mod 100 ^ nat (- shift) = 0));
            e' = e - shift
        in case sqrt_loop c' (10 ^ prec1) of
             Inl err \<Rightarrow> Inl err
           | Inr n \<Rightarrow>
               if exact \<and> n * n = c' then
                 dec_fix ctx \<lparr>dcoeff = int (if shift \<ge> 0 then n div 10 ^ nat shift
                                          else n * 10 ^ nat (- shift)),
                          dexp = e' + shift\<rparr>
               else
                 dec_fix ctx \<lparr>dcoeff = int (if n mod 5 = 0 then n + 1 else n), dexp = e'\<rparr>)"

text \<open>
  \<^verbatim>\<open>Decimal.to_integral_value(rounding="ROUND_HALF_UP")\<close>: a decimal with a non-negative
  exponent is returned as it is, any other is rescaled to exponent 0.  The context
  precision is not applied.
\<close>

definition to_integral_value_half_up :: "decimal \<Rightarrow> decimal" where
  "to_integral_value_half_up d =
     (if dexp d \<ge> 0 then d
      else if dcoeff d = 0 then \<lparr>dcoeff = 0, dexp = 0\<rparr>
      else
        let m = nat \<bar>dcoeff d\<bar>;
            k = nat (- dexp d);
            coeff0 = m div 10 ^ k;
            coeff = (if round_half_up_up m k then coeff0 + 1 else coeff0)
        in \<lparr>dcoeff = sgn (dcoeff d) * int coeff, dexp = 0\<rparr>)"

text \<open>
  \<^verbatim>\<open>a - b\<close>, \<^verbatim>\<open>abs(a)\<close> and \<^verbatim>\<open>a * b\<close> on decimals: the exact result, then \<open>dec_fix\<close>.
\<close>

definition dec_sub :: "dec_context \<Rightarrow> decimal \<Rightarrow> decimal \<Rightarrow> exn + decimal" where
  "dec_sub ctx a b =
     (let e = min (dexp a) (dexp b)
      in dec_fix ctx \<lparr>dcoeff = dcoeff a * 10 ^ nat (dexp a - e) - dcoeff b * 10 ^ nat (dexp b - e),
                  dexp = e\<rparr>)"

definition dec_abs :: "dec_context \<Rightarrow> decimal \<Rightarrow> exn + decimal" where
  "dec_abs ctx a = dec_fix ctx (a\<lparr>dcoeff := \<bar>dcoeff a\<bar>\<rparr>)"

definition dec_mul :: "dec_context \<Rightarrow> decimal \<Rightarrow> decimal \<Rightarrow> exn + decimal" where
  "dec_mul ctx a b = dec_fix ctx \<lparr>dcoeff = dcoeff a * dcoeff b, dexp = dexp a + dexp b\<rparr>"

text \<open>
  \<^verbatim>\<open>float(d)\<close>.  The binary64 rounding of the conversion, of \<^verbatim>\<open>math.cos\<close> and of the
  final sum and division is not modelled: the floating-point stage is carried out in exact
  real arithmetic.
\<close>

definition float_of_decimal :: "decimal \<Rightarrow> real" where
  "float_of_decimal d =
     (if dexp d \<ge> 0 then of_int (dcoeff d) * 10 ^ nat (dexp d)
      else of_int (dcoeff d) / 10 ^ nat (- dexp d))"

section \<open>compute\_spectral\_coherence (diagdevice.py, lines 16--59)\<close>

definition GAMMAS :: "decimal list" where
  "GAMMAS =
     [\<lparr>dcoeff = 14134725, dexp = - 6\<rparr>,
      \<lparr>dcoeff = 21022040, dexp = - 6\<rparr>,
      \<lparr>dcoeff = 25010857, dexp = - 6\<rparr>,
      \<lparr>dcoeff = 30424876, dexp = - 6\<rparr>,
      \<lparr>dcoeff = 32935061, dexp = - 6\<rparr>]"

text \<open>Lines 40--45: the phase offset, \<^verbatim>\<open>abs(root - nearest_square_root)\<close>.\<close>

definition phase_offset :: "int \<Rightarrow> exn + decimal" where
  "phase_offset n =
     (case dec_sqrt getcontext (Decimal n) of
        Inl err \<Rightarrow> Inl err
      | Inr root_dec \<Rightarrow>
          (case dec_sub getcontext root_dec (to_integral_value_half_up root_dec) of
             Inl err \<Rightarrow> Inl err
           | Inr diff \<Rightarrow> dec_abs getcontext diff))"

text \<open>Lines 48--52: the loop over \<^verbatim>\<open>GAMMAS\<close>, appending one cosine per frequency.\<close>

fun resonances_loop :: "decimal list \<Rightarrow> decimal \<Rightarrow> real list \<Rightarrow> exn + real list" where
  "resonances_loop [] phase resonances = Inr resonances"
| "resonances_loop (gamma # gammas) phase resonances =
     (case dec_mul getcontext gamma phase of
        Inl err \<Rightarrow> Inl err
      | Inr x \<Rightarrow> resonances_loop gammas phase (resonances @ [cos (float_of_decimal x)]))"

text \<open>The body of the \<^verbatim>\<open>try\<close> block, lines 40--55.\<close>

definition score_arithmetic :: "int \<Rightarrow> exn + real" where
  "score_arithmetic n =
     (case phase_offset n of
        Inl err \<Rightarrow> Inl err
      | Inr phase \<Rightarrow>
          (case resonances_loop GAMMAS phase [] of
             Inl err \<Rightarrow> Inl err
           | Inr resonances \<Rightarrow>
               if length resonances = 0 then Inl ZeroDivisionError
               else Inr (sum_list resonances / real (length resonances))))"

text \<open>Lines 39--59: \<^verbatim>\<open>except Exception\<close> turns every exception into the score 0.0.\<close>

definition compute_spectral_coherence :: "int \<Rightarrow> real" where
  "compute_spectral_coherence n =
     (case score_arithmetic n of Inl err \<Rightarrow> 0 | Inr score \<Rightarrow> score)"

text \<open>
  Lines 91--93 and 118--120 of \<^verbatim>\<open>analyze_composite_moduli\<close>: the two sample moduli.
\<close>

definition p1 :: int where "p1 = 10 ^ 20 + 39"
definition q1 :: int where "q1 = 10 ^ 50 + 151"
definition n_irregular :: int where "n_irregular = p1 * q1"


section \<open>numpy arrays\<close>

text \<open>
  One-dimensional arrays are lists.  An index out of range raises \<^verbatim>\<open>IndexError\<close>; a slice
  is clipped to the array, and a slice step of zero raises \<^verbatim>\<open>ValueError\<close>.
\<close>

definition np_ones :: "nat \<Rightarrow> bool list" where
  "np_ones n = replicate n True"

definition np_zeros :: "nat \<Rightarrow> real list" where
  "np_zeros n = replicate n 0"

definition getitem :: "'a list \<Rightarrow> nat \<Rightarrow> exn + 'a" where
  "getitem xs i = (if i < length xs then Inr (xs ! i) else Inl IndexError)"

definition setitem :: "'a list \<Rightarrow> nat \<Rightarrow> 'a \<Rightarrow> exn + 'a list" where
  "setitem xs i v = (if i < length xs then Inr (xs[i := v]) else Inl IndexError)"

text \<open>\<^verbatim>\<open>xs[start:stop:step] = v\<close> with non-negative bounds.\<close>

definition slice_assign :: "'a list \<Rightarrow> nat \<Rightarrow> nat \<Rightarrow> nat \<Rightarrow> 'a \<Rightarrow> exn + 'a list" where
  "slice_assign xs start stop step v =
     (if step = 0 then Inl ValueError
      else Inr (map (\<lambda>j. if start \<le> j \<and> j < stop \<and> (j - start) mod step = 0 then v else xs ! j)
                  [0..<length xs]))"

definition astype_float64 :: "bool list \<Rightarrow> real list" where
  "astype_float64 p = map (\<lambda>b. if b then 1 else 0) p"

text \<open>
  \<^verbatim>\<open>int(n ** 0.5)\<close> and \<^verbatim>\<open>int(np.sqrt(m))\<close> for a non-negative integer: the largest \<open>r\<close>
  with \<open>r * r \<le> n\<close>.  The binary64 rounding of the square root is not modelled.
\<close>

function sqrt_search :: "nat \<Rightarrow> nat \<Rightarrow> nat" where
  "sqrt_search n r = (if (r + 1) * (r + 1) \<le> n then sqrt_search n (r + 1) else r)"
  by pat_completeness auto
termination
proof (relation "measure (\<lambda>(n, r). n - r)")
  show "wf (measure (\<lambda>(n, r). n - r))" by simp
next
  fix n r :: nat
  assume a: "(r + 1) * (r + 1) \<le> n"
  have "r + 1 \<le> (r + 1) * (r + 1)" by simp
  with a have "r < n" by linarith
  then show "((n, r + 1), (n, r)) \<in> measure (\<lambda>(n, r). n - r)" by simp
qed

declare sqrt_search.simps [simp del]

definition floor_sqrt :: "nat \<Rightarrow> nat" where
  "floor_sqrt n = sqrt_search n 0"

section \<open>get\_primes (millionaire\_scan.py, lines 20--25)\<close>

text \<open>The loop of lines 23--24, over the values of \<^verbatim>\<open>range(2, int(n**0.5)+1)\<close>.\<close>

fun sieve_loop :: "nat list \<Rightarrow> bool list \<Rightarrow> exn + bool list" where
  "sieve_loop [] p = Inr p"
| "sieve_loop (i # is) p =
     (case getitem p i of
        Inl err \<Rightarrow> Inl err
      | Inr marked \<Rightarrow>
          if marked then
            (case slice_assign p (i * i) (length p) i False of
               Inl err \<Rightarrow> Inl err
             | Inr p' \<Rightarrow> sieve_loop is p')
          else sieve_loop is p)"

definition get_primes :: "nat \<Rightarrow> exn + real list" where
  "get_primes n =
     (case slice_assign (np_ones n) 0 2 1 False of
        Inl err \<Rightarrow> Inl err
      | Inr p \<Rightarrow>
          (case sieve_loop [2..<floor_sqrt n + 1] p of
             Inl err \<Rightarrow> Inl err
           | Inr p' \<Rightarrow> Inr (astype_float64 p')))"

section \<open>get\_squares (jinx\_square.py, lines 16--22)\<close>

text \<open>The loop of lines 20--21, over the values of \<^verbatim>\<open>range(1, limit + 1)\<close>.\<close>

fun squares_loop :: "nat list \<Rightarrow> real list \<Rightarrow> exn + real list" where
  "squares_loop [] field = Inr field"
| "squares_loop (i # is) field =
     (case setitem field (i * i) 1 of
        Inl err \<Rightarrow> Inl err
      | Inr field' \<Rightarrow> squares_loop is field')"

text \<open>
  For \<open>n = 0\<close> line 19 takes \<^verbatim>\<open>np.sqrt(-1)\<close>, which is NaN, and \<^verbatim>\<open>int\<close> of a NaN raises
  \<^verbatim>\<open>ValueError\<close>.
\<close>

definition get_squares :: "nat \<Rightarrow> exn + real list" where
  "get_squares n =
     (let field = np_zeros n
      in if n = 0 then Inl ValueError
         else let limit = floor_sqrt (n - 1)
              in squares_loop [1..<limit + 1] field)"

section \<open>The spectral pipeline (jinx\_square.py, lines 27--49; millionaire\_scan.py, lines 30--52)\<close>

text \<open>
  A numpy \<^verbatim>\<open>float64\<close> is a real number, an infinity or NaN.  Finite arithmetic is exact
  (binary64 rounding and the sign of zero are not modelled); the special values follow
  IEEE 754, which numpy applies without raising: a division by zero only issues a
  \<^verbatim>\<open>RuntimeWarning\<close>.
\<close>

datatype float64 = Finite real | PosInf | NegInf | NaN

fun f64_div :: "float64 \<Rightarrow> float64 \<Rightarrow> float64" where
  "f64_div NaN y = NaN"
| "f64_div x NaN = NaN"
| "f64_div (Finite a) (Finite b) =
     (if b \<noteq> 0 then Finite (a / b)
      else if a = 0 then NaN
      else if 0 < a then PosInf else NegInf)"
| "f64_div (Finite a) PosInf = Finite 0"
| "f64_div (Finite a) NegInf = Finite 0"
| "f64_div PosInf (Finite b) = (if 0 \<le> b then PosInf else NegInf)"
| "f64_div NegInf (Finite b) = (if 0 \<le> b then NegInf else PosInf)"
| "f64_div PosInf PosInf = NaN"
| "f64_div PosInf NegInf = NaN"
| "f64_div NegInf PosInf = NaN"
| "f64_div NegInf NegInf = NaN"

fun f64_abs :: "float64 \<Rightarrow> float64" where
  "f64_abs (Finite a) = Finite \<bar>a\<bar>"
| "f64_abs PosInf = PosInf"
| "f64_abs NegInf = PosInf"
| "f64_abs NaN = NaN"

fun f64_square :: "float64 \<Rightarrow> float64" where
  "f64_square (Finite a) = Finite (a\<^sup>2)"
| "f64_square PosInf = PosInf"
| "f64_square NegInf = PosInf"
| "f64_square NaN = NaN"

fun f64_add :: "float64 \<Rightarrow> float64 \<Rightarrow> float64" where
  "f64_add NaN y = NaN"
| "f64_add x NaN = NaN"
| "f64_add (Finite a) (Finite b) = Finite (a + b)"
| "f64_add (Finite a) PosInf = PosInf"
| "f64_add (Finite a) NegInf = NegInf"
| "f64_add PosInf (Finite b) = PosInf"
| "f64_add NegInf (Finite b) = NegInf"
| "f64_add PosInf PosInf = PosInf"
| "f64_add NegInf NegInf = NegInf"
| "f64_add PosInf NegInf = NaN"
| "f64_add NegInf PosInf = NaN"

fun f64_sqrt :: "float64 \<Rightarrow> float64" where
  "f64_sqrt (Finite a) = (if a < 0 then NaN else Finite (sqrt a))"
| "f64_sqrt PosInf = PosInf"
| "f64_sqrt NegInf = NaN"
| "f64_sqrt NaN = NaN"

definition np_sum :: "float64 list \<Rightarrow> float64" where
  "np_sum xs = foldl f64_add (Finite 0) xs"

text \<open>\<^verbatim>\<open>np.linalg.norm\<close> of a vector of finite values: the Euclidean norm.\<close>

definition np_linalg_norm :: "real list \<Rightarrow> real" where
  "np_linalg_norm data = sqrt (\<Sum>x\<leftarrow>data. x\<^sup>2)"

text \<open>
  qiskit is a library.  \<^verbatim>\<open>QuantumCircuit.initialize\<close> prepares the given amplitudes; it
  raises \<^verbatim>\<open>QiskitError\<close> unless their number is \<open>2 ^ n_qubits\<close> and the squared magnitudes
  sum to 1 as judged by \<^verbatim>\<open>math.isclose\<close> (relative tolerance \<open>10\<^sup>-\<^sup>9\<close>, absolute
  tolerance \<open>10\<^sup>-\<^sup>1\<^sup>0\<close>), which no NaN and no infinity passes.
\<close>

definition isclose :: "real \<Rightarrow> real \<Rightarrow> bool" where
  "isclose a b = (\<bar>a - b\<bar> \<le> max (max \<bar>a\<bar> \<bar>b\<bar> / 10 ^ 9) (1 / 10 ^ 10))"

fun finite_values :: "float64 list \<Rightarrow> real list option" where
  "finite_values [] = Some []"
| "finite_values (Finite a # xs) =
     (case finite_values xs of None \<Rightarrow> None | Some as \<Rightarrow> Some (a # as))"
| "finite_values (x # xs) = None"

definition initialize :: "nat \<Rightarrow> float64 list \<Rightarrow> exn + complex list" where
  "initialize n_qubits state_vector =
     (if length state_vector \<noteq> 2 ^ n_qubits then Inl QiskitError
      else case finite_values state_vector of
             None \<Rightarrow> Inl QiskitError
           | Some amplitudes \<Rightarrow>
               if isclose (\<Sum>a\<leftarrow>amplitudes. \<bar>a\<bar>\<^sup>2) 1
               then Inr (map complex_of_real amplitudes)
               else Inl QiskitError)"

text \<open>
  \<^verbatim>\<open>QFT(num_qubits=n, do_swaps=False)\<close> followed by the simulator's state vector: the
  unitary discrete Fourier transform of the amplitudes, whose output indices stay
  bit-reversed because the final swaps are left out.
\<close>

definition dft_coeff :: "complex list \<Rightarrow> nat \<Rightarrow> complex" where
  "dft_coeff a k =
     (\<Sum>j<length a. a ! j * cis (2 * pi * real j * real k / real (length a)))
       / complex_of_real (sqrt (real (length a)))"

fun bit_reverse :: "nat \<Rightarrow> nat \<Rightarrow> nat" where
  "bit_reverse 0 k = 0"
| "bit_reverse (Suc n) k = (k mod 2) * 2 ^ n + bit_reverse n (k div 2)"

definition qft_no_swaps :: "nat \<Rightarrow> complex list \<Rightarrow> complex list" where
  "qft_no_swaps n a = map (\<lambda>k. dft_coeff a (bit_reverse n k)) [0..<length a]"

text \<open>jinx\_square.py, lines 28--49.\<close>

definition jinx_square_spectrum :: "nat \<Rightarrow> real list \<Rightarrow> exn + real list" where
  "jinx_square_spectrum n_qubits data =
     (let norm = np_linalg_norm data;
          state_vector = map (\<lambda>x. f64_div (Finite x) (Finite norm)) data;
          state_vector' =
            map (\<lambda>x. f64_div x
                   (f64_sqrt (np_sum (map (\<lambda>y. f64_square (f64_abs y)) state_vector))))
              state_vector
      in case initialize n_qubits state_vector' of
           Inl err \<Rightarrow> Inl err
         | Inr amplitudes \<Rightarrow>
             (let sv = qft_no_swaps n_qubits amplitudes
              in Inr (map (\<lambda>z. (cmod z)\<^sup>2) sv)))"

text \<open>millionaire\_scan.py, lines 31--52.\<close>

definition millionaire_scan_spectrum :: "nat \<Rightarrow> real list \<Rightarrow> exn + real list" where
  "millionaire_scan_spectrum n_qubits data =
     (let norm = np_linalg_norm data;
          state_vector = map (\<lambda>x. f64_div (Finite x) (Finite norm)) data;
          state_vector' =
            map (\<lambda>x. f64_div x
                   (f64_sqrt (np_sum (map (\<lambda>y. f64_square (f64_abs y)) state_vector))))
              state_vector
      in case initialize n_qubits state_vector' of
           Inl err \<Rightarrow> Inl err
         | Inr amplitudes \<Rightarrow>
             (let sv = qft_no_swaps n_qubits amplitudes
              in Inr (map (\<lambda>z. (cmod z)\<^sup>2) sv)))"

text \<open>
  Lines 28--30 (31--33) alone: the twice-normalised state vector, before it is handed to
  the state preparation.
\<close>

definition normalized_state_vector :: "real list \<Rightarrow> float64 list" where
  "normalized_state_vector data =
     (let norm = np_linalg_norm data;
          state_vector = map (\<lambda>x. f64_div (Finite x) (Finite norm)) data
      in map (\<lambda>x. f64_div x
                (f64_sqrt (np_sum (map (\<lambda>y. f64_square (f64_abs y)) state_vector))))
           state_vector)"

section \<open>Reference notions used in the statements\<close>

text \<open>Primality, as the specification reads it: exactly two divisors.\<close>

definition is_prime :: "nat \<Rightarrow> bool" where
  "is_prime p \<longleftrightarrow> 1 < p \<and> (\<forall>d. d dvd p \<longrightarrow> d = 1 \<or> d = p)"

text \<open>
  The state of the sieve once every \<open>i \<le> m\<close> has been processed: index \<open>j\<close> is still marked
  iff no \<open>d\<close> in \<open>2..m\<close> with \<open>d * d \<le> j\<close> divides it.
\<close>

definition sieved :: "nat \<Rightarrow> nat \<Rightarrow> bool" where
  "sieved m j \<longleftrightarrow> 2 \<le> j \<and> (\<forall>d. 2 \<le> d \<and> d \<le> m \<and> d * d \<le> j \<longrightarrow> \<not> d dvd j)"

text \<open>
  The PRIME builder in the specification's words (section 4.2): the same sieve, but
  with the outer loop running over \<open>i\<close> from 2 to \<open>floor (sqrt (n - 1))\<close>.
\<close>

definition spec_build_prime :: "nat \<Rightarrow> exn + real list" where
  "spec_build_prime n =
     (case slice_assign (np_ones n) 0 2 1 False of
        Inl err \<Rightarrow> Inl err
      | Inr p \<Rightarrow>
          (case sieve_loop [2..<floor_sqrt (n - 1) + 1] p of
             Inl err \<Rightarrow> Inl err
           | Inr p' \<Rightarrow> Inr (astype_float64 p')))"


text \<open>
  A test modulus that is not one of the source's samples: its square root lies one tenth
  above an integer, so that most of the cosines are negative.
\<close>

definition n_anti_resonant :: int where
  "n_anti_resonant = 10 ^ 190 + 2 * 10 ^ 94"


section \<open>Properties of the decimal operations\<close>

lemma ndigits_pos: "0 < ndigits c"
  by (subst ndigits.simps) simp

lemma ndigits_upper: "c < 10 ^ ndigits c"
proof (induction c rule: ndigits.induct)
  case (1 c)
  show ?case
  proof (cases "c < 10")
    case True
    then show ?thesis by (subst ndigits.simps) simp
  next
    case False
    with 1 have "c div 10 < 10 ^ ndigits (c div 10)" by simp
    then have "c < 10 * 10 ^ ndigits (c div 10)" by simp
    with False show ?thesis by (subst ndigits.simps) simp
  qed
qed

lemma ndigits_lower: "0 < c \<Longrightarrow> 10 ^ (ndigits c - 1) \<le> c"
proof (induction c rule: ndigits.induct)
  case (1 c)
  show ?case
  proof (cases "c < 10")
    case True
    with 1(2) show ?thesis by (subst ndigits.simps) simp
  next
    case False
    then have "0 < c div 10" by simp
    with 1 False have "10 ^ (ndigits (c div 10) - 1) \<le> c div 10" by simp
    then have "10 * 10 ^ (ndigits (c div 10) - 1) \<le> c" by simp
    moreover have "0 < ndigits (c div 10)" by (rule ndigits_pos)
    ultimately show ?thesis using False
      by (subst ndigits.simps) (simp flip: power_Suc)
  qed
qed

lemma ndigits_unique:
  assumes "10 ^ d \<le> c" "c < 10 ^ Suc d"
  shows "ndigits c = Suc d"
proof -
  have c: "0 < c" using assms(1) by (metis zero_less_numeral zero_less_power less_le_trans)
  have "10 ^ (ndigits c - 1) < (10::nat) ^ Suc d"
    using ndigits_lower [OF c] assms(2) by linarith
  then have a: "ndigits c - 1 < Suc d" by (simp only: power_strict_increasing_iff one_less_numeral_iff semiring_norm)
  have "(10::nat) ^ d < 10 ^ ndigits c"
    using ndigits_upper [of c] assms(1) by linarith
  then have b: "d < ndigits c" by (simp only: power_strict_increasing_iff one_less_numeral_iff semiring_norm)
  from a b show ?thesis by linarith
qed

lemma sqrt_loop_correct:
  "0 < c \<Longrightarrow> 0 < n \<Longrightarrow> c < (n + 1) * (n + 1) \<Longrightarrow>
     \<exists>r. sqrt_loop c n = Inr r \<and> 0 < r \<and> r * r \<le> c \<and> c < (r + 1) * (r + 1)"
proof (induction c n rule: sqrt_loop.induct)
  case (1 c n)
  show ?case
  proof (cases "n \<le> c div n")
    case True
    then have "n * n \<le> c div n * n" by simp
    also have "\<dots> \<le> c" by simp
    finally have "n * n \<le> c" .
    moreover have "sqrt_loop c n = Inr n"
      using True 1(3) by (subst sqrt_loop.simps) simp
    ultimately show ?thesis using 1(3,4) by simp
  next
    case False
    let ?q = "c div n"
    let ?m = "(n + ?q) div 2"
    have lt: "?q < n" using False by simp
    have cn: "c < n * n"
    proof (rule ccontr)
      assume "\<not> c < n * n"
      then have "n * n \<le> c" by simp
      then have "n \<le> c div n" using 1(3)
        by (simp add: less_eq_div_iff_mult_less_eq)
      with False show False by simp
    qed
    have mpos: "0 < ?m"
    proof -
      have "2 \<le> n"
      proof (rule ccontr)
        assume "\<not> 2 \<le> n"
        with 1(3) have "n = 1" by simp
        with cn 1(2) show False by simp
      qed
      then show ?thesis by simp
    qed
    have bound: "c < (?m + 1) * (?m + 1)"
    proof -
      have "c < n + ?q * n"
        using 1(3) dividend_less_div_times [of n c] by simp
      then have "int c < int (n + ?q * n)"
        by (simp only: of_nat_less_iff)
      then have a: "int c < (int ?q + 1) * int n"
        by (simp add: algebra_simps)
      have b: "(int n + int ?q + 1)\<^sup>2 = (int n - int ?q - 1)\<^sup>2 + 4 * ((int ?q + 1) * int n)"
        by (simp add: power2_eq_square algebra_simps)
      have "n + ?q \<le> 2 * ?m + 1" by simp
      then have "int (n + ?q) \<le> int (2 * ?m + 1)"
        by (simp only: of_nat_le_iff)
      then have "int n + int ?q \<le> 2 * int ?m + 1" by simp
      then have "(int n + int ?q + 1)\<^sup>2 \<le> (2 * int ?m + 2)\<^sup>2"
        by (intro power_mono) simp_all
      moreover have "(2 * int ?m + 2)\<^sup>2 = 4 * ((int ?m + 1) * (int ?m + 1))"
        by (simp add: power2_eq_square algebra_simps)
      moreover have "0 \<le> (int n - int ?q - 1)\<^sup>2" by (rule zero_le_power2)
      ultimately have "4 * ((int ?q + 1) * int n) \<le> 4 * ((int ?m + 1) * (int ?m + 1))"
        using b by linarith
      with a have "int c < (int ?m + 1) * (int ?m + 1)" by linarith
      then have "int c < int ((?m + 1) * (?m + 1))" by (simp add: algebra_simps)
      then show ?thesis by (simp only: of_nat_less_iff)
    qed
    have "sqrt_loop c n = sqrt_loop c ?m"
      using False 1(3) by (subst sqrt_loop.simps) (simp add: Let_def)
    moreover have "\<exists>r. sqrt_loop c ?m = Inr r \<and> 0 < r \<and> r * r \<le> c \<and> c < (r + 1) * (r + 1)"
      using 1(1) [OF _ refl False 1(2) mpos bound] 1(3) by simp
    ultimately show ?thesis by simp
  qed
qed

lemma nat_sq_less: "(a::nat) < b \<Longrightarrow> a * a < b * b"
  by (rule mult_strict_mono) simp_all

lemma nat_sq_le_D: "(a::nat) * a \<le> b * b \<Longrightarrow> a \<le> b"
  using nat_sq_less [of b a] by (cases "a \<le> b") simp_all

lemma nat_sq_less_D: "(a::nat) * a < b * b \<Longrightarrow> a < b"
  using mult_le_mono [of b a b a] by (cases "a < b") simp_all

lemma sqrt_loop_square:
  assumes "0 < m" "m \<le> n"
  shows "sqrt_loop (m * m) n = Inr m"
proof -
  have "m * m \<le> n * n" using assms(2) by (intro mult_le_mono)
  then have "m * m < (n + 1) * (n + 1)" by simp
  moreover have "0 < m * m" "0 < n" using assms by simp_all
  ultimately obtain r where r: "sqrt_loop (m * m) n = Inr r" "r * r \<le> m * m" "m * m < (r + 1) * (r + 1)"
    using sqrt_loop_correct by blast
  from r(2) have "r \<le> m" by (rule nat_sq_le_D)
  moreover from r(3) have "m < r + 1" by (rule nat_sq_less_D)
  ultimately show ?thesis using r(1) by simp
qed

lemma ndigits_square:
  assumes "0 < k"
  shows "(ndigits (k * k) + 1) div 2 = ndigits k"
proof -
  define d where "d = ndigits k - 1"
  have d: "ndigits k = Suc d" using ndigits_pos [of k] by (simp add: d_def)
  have lo: "10 ^ d \<le> k" using ndigits_lower [OF assms] by (simp add: d_def)
  have hi: "k < 10 ^ Suc d" using ndigits_upper [of k] by (simp add: d)
  have lo2: "10 ^ (2 * d) \<le> k * k"
    using mult_mono [OF lo lo] by (simp add: power_add mult_2)
  have "k * k < 10 ^ Suc d * 10 ^ Suc d"
    using hi by (intro mult_strict_mono) simp_all
  then have hi2: "k * k < 10 ^ Suc (Suc (2 * d))"
    by (simp add: power_add mult_2)
  show ?thesis
  proof (cases "k * k < 10 ^ Suc (2 * d)")
    case True
    with lo2 have "ndigits (k * k) = Suc (2 * d)" by (rule ndigits_unique)
    then show ?thesis by (simp add: d)
  next
    case False
    then have "10 ^ Suc (2 * d) \<le> k * k" by simp
    from this hi2 have "ndigits (k * k) = Suc (Suc (2 * d))" by (rule ndigits_unique)
    then show ?thesis by (simp add: d)
  qed
qed

lemma dec_fix_exp_nonneg:
  "dec_fix getcontext d = Inr r \<Longrightarrow> 0 \<le> dexp d \<Longrightarrow> 0 \<le> dexp r"
  by (auto simp: dec_fix_def Let_def getcontext_def split: if_splits)

lemma dec_fix_zero:
  "dcoeff d = 0 \<Longrightarrow> \<exists>e. dec_fix ctx d = Inr \<lparr>dcoeff = 0, dexp = e\<rparr>"
  by (cases d) (simp add: dec_fix_def Let_def)

lemma ndigits_eqI: "0 < d \<Longrightarrow> 10 ^ (d - 1) \<le> c \<Longrightarrow> c < 10 ^ d \<Longrightarrow> ndigits c = d"
  using ndigits_unique [of "d - 1" c] by simp

lemma hundred_power: "(100::nat) ^ s = 10 ^ s * 10 ^ s"
proof -
  have "(100::nat) = 10 * 10" by simp
  then show ?thesis by (simp only: power_mult_distrib)
qed

lemma dec_sqrt_square:
  assumes k: "0 < k"
  shows "\<exists>c e. 0 < c \<and> 0 \<le> e \<and> int (ndigits c) + e = int (ndigits k) \<and>
           dec_sqrt ctx (Decimal (int k * int k)) = dec_fix ctx \<lparr>dcoeff = int c, dexp = e\<rparr>"
proof -
  define P where "P = prec ctx + 1"
  define d where "d = ndigits k"
  have dpos: "0 < d" unfolding d_def by (rule ndigits_pos)
  have lo: "10 ^ (d - 1) \<le> k" unfolding d_def using k by (rule ndigits_lower)
  have hi: "k < 10 ^ d" unfolding d_def by (rule ndigits_upper)
  have l: "(ndigits (k * k) + 1) div 2 = d" unfolding d_def using k by (rule ndigits_square)
  have kk: "nat (int k * int k) = k * k" by (simp add: nat_mult_distrib)
  have pos: "int k * int k \<noteq> 0" "\<not> int k * int k < 0" using k by (simp_all add: mult_less_0_iff)
  show ?thesis
  proof (cases "d \<le> P")
    case True
    define s where "s = P - d"
    have sh: "int P - int d = int s" "int P - int d \<ge> 0" using True by (simp_all add: s_def)
    have "k * 10 ^ s < 10 ^ d * 10 ^ s" using hi by simp
    also have "\<dots> = 10 ^ P" using True by (simp add: s_def flip: power_add)
    finally have "k * 10 ^ s \<le> 10 ^ P" by simp
    moreover have "0 < k * 10 ^ s" using k by simp
    ultimately have "sqrt_loop ((k * 10 ^ s) * (k * 10 ^ s)) (10 ^ P) = Inr (k * 10 ^ s)"
      by (intro sqrt_loop_square)
    moreover have sq: "k * k * 100 ^ s = (k * 10 ^ s) * (k * 10 ^ s)"
      by (simp add: hundred_power algebra_simps)
    ultimately have loop: "sqrt_loop (k * k * 100 ^ s) (10 ^ P) = Inr (k * 10 ^ s)"
      by (simp only:)
    have "dec_sqrt ctx (Decimal (int k * int k)) =
            (case sqrt_loop (k * k * 100 ^ s) (10 ^ P) of
               Inl err \<Rightarrow> Inl err
             | Inr n \<Rightarrow>
                 if True \<and> n * n = k * k * 100 ^ s then
                   dec_fix ctx \<lparr>dcoeff = int (n div 10 ^ s), dexp = 0 - int s + int s\<rparr>
                 else
                   dec_fix ctx \<lparr>dcoeff = int (if n mod 5 = 0 then n + 1 else n), dexp = 0 - int s\<rparr>)"
      unfolding dec_sqrt_def Decimal_def Let_def P_def [symmetric]
      by (simp only: decimal.select_convs pos if_False kk even_zero not_True_eq_False l sh
            nat_int split_conv if_True div_0 of_nat_0_le_iff)
    also have "\<dots> = dec_fix ctx \<lparr>dcoeff = int k, dexp = 0\<rparr>"
      by (simp only: loop sum.case sq [symmetric] simp_thms if_True nonzero_mult_div_cancel_right)
         (use k in simp)
    finally have "dec_sqrt ctx (Decimal (int k * int k)) = dec_fix ctx \<lparr>dcoeff = int k, dexp = 0\<rparr>" .
    then show ?thesis using k by (intro exI [of _ k] exI [of _ 0]) (simp add: d_def)
  next
    case False
    define j where "j = d - P"
    have jpos: "0 < j" using False by (simp add: j_def)
    have sh: "int P - int d = - int j" "\<not> - int j \<ge> 0" using False by (simp_all add: j_def)
    have dj: "d = P + j" using False by (simp add: j_def)
    define c' where "c' = k * k div 100 ^ j"
    have Ppos: "0 < P" by (simp add: P_def)
    have "(10::nat) ^ (P - 1) * 10 ^ j = 10 ^ (P - 1 + j)" by (simp only: power_add)
    also have "P - 1 + j = d - 1" using Ppos by (simp add: dj)
    finally have "10 ^ (P - 1) * 10 ^ j \<le> k" using lo by simp
    then have "(10 ^ (P - 1) * 10 ^ j) * (10 ^ (P - 1) * 10 ^ j) \<le> k * k"
      by (intro mult_le_mono)
    also have "((10::nat) ^ (P - 1) * 10 ^ j) * (10 ^ (P - 1) * 10 ^ j) = 100 ^ (P - 1) * 100 ^ j"
      by (simp only: hundred_power ac_simps)
    finally have "100 ^ (P - 1) * 100 ^ j \<le> k * k" .
    then have c'lo: "100 ^ (P - 1) \<le> c'"
      unfolding c'_def using less_eq_div_iff_mult_less_eq [of "100 ^ j" "100 ^ (P - 1)" "k * k"]
      by simp
    have "k < 10 ^ P * 10 ^ j" using hi by (simp only: dj power_add)
    then have "k * k < (10 ^ P * 10 ^ j) * (10 ^ P * 10 ^ j)"
      by (rule nat_sq_less)
    also have "((10::nat) ^ P * 10 ^ j) * (10 ^ P * 10 ^ j) = 100 ^ P * 100 ^ j"
      by (simp only: hundred_power ac_simps)
    finally have "k * k < 100 ^ P * 100 ^ j" .
    then have c'hi: "c' < 100 ^ P"
      unfolding c'_def using div_less_iff_less_mult [of "100 ^ j" "k * k" "100 ^ P"]
      by simp
    have c'hi2: "c' < 10 ^ P * 10 ^ P"
      using c'hi by (simp only: hundred_power)
    have "(0::nat) < 100 ^ (P - 1)" by simp
    with c'lo have c'pos: "0 < c'" by linarith
    have "10 ^ P * 10 ^ P \<le> ((10::nat) ^ P + 1) * (10 ^ P + 1)" by (intro mult_le_mono) simp_all
    with c'hi2 have "c' < (10 ^ P + 1) * (10 ^ P + 1)" by linarith
    with c'pos obtain r where r: "sqrt_loop c' (10 ^ P) = Inr r" "0 < r" "r * r \<le> c'" "c' < (r + 1) * (r + 1)"
      using sqrt_loop_correct [of c' "10 ^ P"] by auto
    have "r * r < 10 ^ P * 10 ^ P" using r(3) c'hi2 by linarith
    then have rhi: "r < 10 ^ P" by (rule nat_sq_less_D)
    have "10 ^ (P - 1) * 10 ^ (P - 1) \<le> c'"
      using c'lo by (simp only: hundred_power)
    with r(4) have "10 ^ (P - 1) * 10 ^ (P - 1) < (r + 1) * (r + 1)" by linarith
    then have "10 ^ (P - 1) < r + 1" by (rule nat_sq_less_D)
    then have rlo: "10 ^ (P - 1) \<le> r" by simp
    have ndr: "ndigits r = P" using Ppos rlo rhi by (rule ndigits_eqI)
    have unfold: "dec_sqrt ctx (Decimal (int k * int k)) =
            (case sqrt_loop c' (10 ^ P) of
               Inl err \<Rightarrow> Inl err
             | Inr n \<Rightarrow>
                 if k * k mod 100 ^ j = 0 \<and> n * n = c' then
                   dec_fix ctx \<lparr>dcoeff = int (n * 10 ^ j), dexp = 0 - (- int j) + (- int j)\<rparr>
                 else
                   dec_fix ctx \<lparr>dcoeff = int (if n mod 5 = 0 then n + 1 else n),
                                dexp = 0 - (- int j)\<rparr>)"
      unfolding dec_sqrt_def Decimal_def Let_def P_def [symmetric] c'_def
      by (simp only: decimal.select_convs pos if_False kk even_zero not_True_eq_False l sh
            nat_int split_conv if_True div_0 minus_minus)
    show ?thesis
    proof (cases "k * k mod 100 ^ j = 0 \<and> r * r = c'")
      case True
      have "10 ^ (P - 1) * 10 ^ j \<le> r * 10 ^ j" using rlo by simp
      then have "10 ^ (P + j - 1) \<le> r * 10 ^ j"
        using Ppos by (simp flip: power_add)
      moreover have "r * 10 ^ j < 10 ^ P * 10 ^ j" using rhi by simp
      then have "r * 10 ^ j < 10 ^ (P + j)" by (simp only: power_add)
      ultimately have "ndigits (r * 10 ^ j) = P + j"
        using Ppos by (intro ndigits_eqI) simp_all
      moreover have "dec_sqrt ctx (Decimal (int k * int k)) =
          dec_fix ctx \<lparr>dcoeff = int (r * 10 ^ j), dexp = 0\<rparr>"
        using True by (simp add: unfold r(1))
      ultimately show ?thesis
        using r(2) by (intro exI [of _ "r * 10 ^ j"] exI [of _ 0]) (simp add: dj flip: d_def)
    next
      case False
      define c where "c = (if r mod 5 = 0 then r + 1 else r)"
      have "c < 10 ^ P"
      proof (cases "r mod 5 = 0")
        case True
        then have "5 dvd r" by presburger
        moreover have "(5::nat) dvd 10 ^ P" using Ppos by (cases P) simp_all
        ultimately have "5 dvd (10 ^ P - r)" by (rule dvd_diff_nat [rotated])
        moreover have "0 < 10 ^ P - r" using rhi by simp
        ultimately have "5 \<le> 10 ^ P - r" by (rule dvd_imp_le)
        then show ?thesis using True by (simp add: c_def)
      next
        case False
        then show ?thesis using rhi by (simp add: c_def)
      qed
      moreover have "10 ^ (P - 1) \<le> c" using rlo by (simp add: c_def)
      ultimately have "ndigits c = P" using Ppos by (intro ndigits_eqI)
      moreover have "dec_sqrt ctx (Decimal (int k * int k)) =
          dec_fix ctx \<lparr>dcoeff = int c, dexp = int j\<rparr>"
      proof -
        have nc: "(k * k mod 100 ^ j = 0 \<and> r * r = c') = False" using False by blast
        show ?thesis by (simp only: unfold r(1) sum.case nc if_False c_def) simp
      qed
      moreover have "0 < c" using r(2) by (simp add: c_def)
      ultimately show ?thesis
        by (intro exI [of _ c] exI [of _ "int j"]) (simp add: dj flip: d_def)
    qed
  qed
qed

lemma dec_fix_cases: "dec_fix ctx d = Inl Overflow \<or> (\<exists>r. dec_fix ctx d = Inr r)"
proof (cases "dec_fix ctx d")
  case (Inl e)
  then have "e = Overflow"
    unfolding dec_fix_def Let_def by (simp split: if_splits prod.splits)
  with Inl show ?thesis by simp
next
  case (Inr r)
  then show ?thesis by simp
qed

lemma dec_fix_overflow:
  assumes "0 < c" "int (ndigits c) + e > 1000000"
  shows "dec_fix getcontext \<lparr>dcoeff = int c, dexp = e\<rparr> = Inl Overflow"
  using assms by (simp add: dec_fix_def Let_def getcontext_def)

lemma dec_fix_no_overflow:
  assumes "0 < c" "0 \<le> e" "int (ndigits c) + e \<le> 999999"
  shows "\<exists>r. dec_fix getcontext \<lparr>dcoeff = int c, dexp = e\<rparr> = Inr r"
  using assms by (simp add: dec_fix_def Let_def getcontext_def split: prod.splits)

lemma zero_phase_score:
  assumes "phase_offset n = Inr ph" "dcoeff ph = 0"
  shows "score_arithmetic n = Inr 1"
proof -
  have mul: "\<exists>e. dec_mul getcontext g ph = Inr \<lparr>dcoeff = 0, dexp = e\<rparr>" for g
    unfolding dec_mul_def using assms(2) by (intro dec_fix_zero) simp
  have step: "\<exists>e. dec_mul getcontext g ph = Inr \<lparr>dcoeff = 0, dexp = e\<rparr>" for g by (rule mul)
  have loop: "resonances_loop gs ph acc = Inr (acc @ replicate (length gs) 1)" for gs acc
  proof (induction gs arbitrary: acc)
    case Nil
    show ?case by simp
  next
    case (Cons g gs)
    obtain e where e: "dec_mul getcontext g ph = Inr \<lparr>dcoeff = 0, dexp = e\<rparr>"
      using mul by blast
    have "float_of_decimal \<lparr>dcoeff = 0, dexp = e\<rparr> = 0" by (simp add: float_of_decimal_def)
    then show ?case using e Cons by (simp add: replicate_app_Cons_same)
  qed
  have "resonances_loop GAMMAS ph [] = Inr [1, 1, 1, 1, 1]"
    unfolding loop by (simp add: GAMMAS_def)
  then show ?thesis using assms(1) by (simp add: score_arithmetic_def)
qed

lemma integral_root_phase:
  assumes "dec_sqrt getcontext (Decimal n) = Inr rt" "0 \<le> dexp rt"
  shows "\<exists>e. phase_offset n = Inr \<lparr>dcoeff = 0, dexp = e\<rparr>"
proof -
  have "to_integral_value_half_up rt = rt" using assms(2) by (simp add: to_integral_value_half_up_def)
  moreover obtain e where e: "dec_sub getcontext rt rt = Inr \<lparr>dcoeff = 0, dexp = e\<rparr>"
    unfolding dec_sub_def Let_def using dec_fix_zero [of "\<lparr>dcoeff = dcoeff rt * 10 ^ nat (dexp rt - min (dexp rt) (dexp rt)) -
       dcoeff rt * 10 ^ nat (dexp rt - min (dexp rt) (dexp rt)), dexp = min (dexp rt) (dexp rt)\<rparr>" getcontext]
    by auto
  moreover obtain e' where "dec_abs getcontext \<lparr>dcoeff = 0, dexp = e\<rparr> = Inr \<lparr>dcoeff = 0, dexp = e'\<rparr>"
    unfolding dec_abs_def using dec_fix_zero [of "\<lparr>dcoeff = 0, dexp = e\<rparr>\<lparr>dcoeff := \<bar>dcoeff \<lparr>dcoeff = 0, dexp = e\<rparr>\<bar>\<rparr>" getcontext] by auto
  ultimately show ?thesis using assms(1) by (simp add: phase_offset_def)
qed

lemma dec_sqrt_square_int:
  "\<exists>c e. 0 \<le> e \<and> (k \<noteq> 0 \<longrightarrow> 0 < c \<and> int (ndigits c) + e = int (ndigits (nat \<bar>k\<bar>))) \<and> (k = 0 \<longrightarrow> c = 0) \<and>
           dec_sqrt getcontext (Decimal (k * k)) = dec_fix getcontext \<lparr>dcoeff = int c, dexp = e\<rparr>"
proof (cases "k = 0")
  case True
  then show ?thesis by (intro exI [of _ 0]) (simp add: dec_sqrt_def Decimal_def)
next
  case False
  then have "0 < nat \<bar>k\<bar>" by simp
  from dec_sqrt_square [OF this, of getcontext]
  obtain c e where "0 < c" "0 \<le> e" "int (ndigits c) + e = int (ndigits (nat \<bar>k\<bar>))"
    "dec_sqrt getcontext (Decimal (int (nat \<bar>k\<bar>) * int (nat \<bar>k\<bar>))) = dec_fix getcontext \<lparr>dcoeff = int c, dexp = e\<rparr>"
    by blast
  moreover have "int (nat \<bar>k\<bar>) * int (nat \<bar>k\<bar>) = k * k" by simp
  ultimately show ?thesis using False by (intro exI [of _ c] exI [of _ e]) simp
qed

lemma square_score:
  "compute_spectral_coherence (k * k) =
     (if dec_sqrt getcontext (Decimal (k * k)) = Inl Overflow then 0 else 1)"
proof -
  obtain c e where ce: "0 \<le> e"
    "dec_sqrt getcontext (Decimal (k * k)) = dec_fix getcontext \<lparr>dcoeff = int c, dexp = e\<rparr>"
    using dec_sqrt_square_int [of k] by blast
  show ?thesis
  proof (cases "dec_sqrt getcontext (Decimal (k * k)) = Inl Overflow")
    case True
    then show ?thesis
      by (simp add: compute_spectral_coherence_def score_arithmetic_def phase_offset_def)
  next
    case False
    then obtain rt where rt: "dec_sqrt getcontext (Decimal (k * k)) = Inr rt"
      using dec_fix_cases [of getcontext "\<lparr>dcoeff = int c, dexp = e\<rparr>"] ce(2) by auto
    then have "0 \<le> dexp rt" using ce dec_fix_exp_nonneg [of "\<lparr>dcoeff = int c, dexp = e\<rparr>" rt] by simp
    with rt obtain e' where "phase_offset (k * k) = Inr \<lparr>dcoeff = 0, dexp = e'\<rparr>"
      using integral_root_phase by blast
    then have "score_arithmetic (k * k) = Inr 1" by (rule zero_phase_score) simp
    then show ?thesis using False by (simp add: compute_spectral_coherence_def)
  qed
qed

lemma small_square_no_overflow:
  assumes "ndigits (nat \<bar>k\<bar>) \<le> 999999"
  shows "dec_sqrt getcontext (Decimal (k * k)) \<noteq> Inl Overflow"
proof -
  obtain c e where ce: "0 \<le> e" "k \<noteq> 0 \<longrightarrow> 0 < c \<and> int (ndigits c) + e = int (ndigits (nat \<bar>k\<bar>))" "k = 0 \<longrightarrow> c = 0"
    "dec_sqrt getcontext (Decimal (k * k)) = dec_fix getcontext \<lparr>dcoeff = int c, dexp = e\<rparr>"
    using dec_sqrt_square_int [of k] by blast
  show ?thesis
  proof (cases "k = 0")
    case True
    with ce show ?thesis using dec_fix_zero [of "\<lparr>dcoeff = int c, dexp = e\<rparr>" getcontext] by auto
  next
    case False
    with ce assms have "\<exists>r. dec_fix getcontext \<lparr>dcoeff = int c, dexp = e\<rparr> = Inr r"
      by (intro dec_fix_no_overflow) simp_all
    with ce show ?thesis by auto
  qed
qed

lemma large_square_overflow:
  assumes "ndigits (nat \<bar>k\<bar>) > 1000000"
  shows "dec_sqrt getcontext (Decimal (k * k)) = Inl Overflow"
proof -
  obtain c e where ce: "0 \<le> e" "k \<noteq> 0 \<longrightarrow> 0 < c \<and> int (ndigits c) + e = int (ndigits (nat \<bar>k\<bar>))" "k = 0 \<longrightarrow> c = 0"
    "dec_sqrt getcontext (Decimal (k * k)) = dec_fix getcontext \<lparr>dcoeff = int c, dexp = e\<rparr>"
    using dec_sqrt_square_int [of k] by blast
  have "k \<noteq> 0" using assms by (auto simp: ndigits.simps [of 0])
  with ce assms show ?thesis by (simp add: dec_fix_overflow)
qed

lemma ndigits_power10: "ndigits (10 ^ m) = Suc m"
  by (rule ndigits_unique) simp_all

lemma sqrt_loop_unique:
  assumes "0 < r" "r * r \<le> c" "c < (r + 1) * (r + 1)" "r \<le> n"
  shows "sqrt_loop c n = Inr r"
proof -
  have "(r + 1) * (r + 1) \<le> (n + 1) * (n + 1)" using assms(4) by (intro mult_le_mono) simp_all
  with assms(3) have "c < (n + 1) * (n + 1)" by linarith
  moreover have "0 < r * r" using assms(1) by simp
  with assms(2) have "0 < c" by linarith
  moreover have "0 < n" using assms(1,4) by linarith
  ultimately obtain r' where r': "sqrt_loop c n = Inr r'" "r' * r' \<le> c" "c < (r' + 1) * (r' + 1)"
    using sqrt_loop_correct by blast
  have "r' * r' < (r + 1) * (r + 1)" using r'(2) assms(3) by linarith
  then have "r' < r + 1" by (rule nat_sq_less_D)
  moreover have "r * r < (r' + 1) * (r' + 1)" using r'(3) assms(2) by linarith
  then have "r < r' + 1" by (rule nat_sq_less_D)
  ultimately show ?thesis using r'(1) by simp
qed

lemma dec_sqrt_inexact:
  assumes n: "0 < n" and len: "ndigits (nat n) = len"
    and s: "(len + 1) div 2 + s = prec ctx + 1"
    and r: "0 < r" "r * r < nat n * 100 ^ s" "nat n * 100 ^ s < (r + 1) * (r + 1)"
  shows "dec_sqrt ctx (Decimal n) =
           dec_fix ctx \<lparr>dcoeff = int (if r mod 5 = 0 then r + 1 else r), dexp = - int s\<rparr>"
proof -
  define P where "P = prec ctx + 1"
  define l where "l = (len + 1) div 2"
  have P: "P = l + s" using s by (simp add: P_def l_def)
  have "nat n < 10 ^ len" using ndigits_upper [of "nat n"] len by simp
  also have "(10::nat) ^ len \<le> 10 ^ (2 * l)" by (intro power_increasing) (simp_all add: l_def)
  also have "(10::nat) ^ (2 * l) = 100 ^ l" by (simp add: power_mult)
  finally have "nat n * 100 ^ s < 100 ^ l * 100 ^ s" by simp
  also have "\<dots> = 10 ^ P * 10 ^ P" by (simp only: P hundred_power power_add ac_simps)
  finally have "r * r < 10 ^ P * 10 ^ P" using r(2) by linarith
  then have "r < 10 ^ P" by (rule nat_sq_less_D)
  then have loop: "sqrt_loop (nat n * 100 ^ s) (10 ^ P) = Inr r"
    using r by (intro sqrt_loop_unique) simp_all
  have sh: "int P - int l = int s" "0 \<le> int s" by (simp_all add: P)
  have pos: "n \<noteq> 0" "\<not> n < 0" using n by simp_all
  have ne: "(r * r = nat n * 100 ^ s) = False" using r(2) by simp
  show ?thesis
    unfolding dec_sqrt_def Decimal_def Let_def P_def [symmetric]
    by (simp only: decimal.select_convs pos if_False even_zero not_True_eq_False len
          l_def [symmetric] sh nat_int split_conv if_True div_0 loop sum.case ne simp_thms)
       simp
qed

lemma ndigits_le:
  assumes "c < 10 ^ d" "0 < d"
  shows "ndigits c \<le> d"
proof (cases "c = 0")
  case True
  then show ?thesis using assms(2) by (simp add: ndigits.simps [of 0])
next
  case False
  then have "10 ^ (ndigits c - 1) \<le> c" by (intro ndigits_lower) simp
  with assms(1) have "(10::nat) ^ (ndigits c - 1) < 10 ^ d" by linarith
  then have "ndigits c - 1 < d"
    by (simp only: power_strict_increasing_iff one_less_numeral_iff semiring_norm)
  then show ?thesis by simp
qed

lemma dec_fix_id:
  assumes "c \<noteq> 0" "nat \<bar>c\<bar> < 10 ^ 100" "- 1000000 \<le> e" "e \<le> 999900"
  shows "dec_fix getcontext \<lparr>dcoeff = c, dexp = e\<rparr> = Inr \<lparr>dcoeff = c, dexp = e\<rparr>"
proof -
  have "ndigits (nat \<bar>c\<bar>) \<le> 100" using assms(2) by (rule ndigits_le) simp
  then show ?thesis using assms(1,3,4)
    by (simp add: dec_fix_def Let_def getcontext_def)
qed

lemma dec_fix_round1:
  assumes m: "m = 10 * q + t" "t < 10" and q: "10 ^ 99 \<le> q" "q + 1 < 10 ^ 100"
    and e: "- 1000000 \<le> e" "e < 999000"
  shows "dec_fix getcontext \<lparr>dcoeff = int m, dexp = e\<rparr> =
           Inr \<lparr>dcoeff = int (if 5 < t \<or> (t = 5 \<and> odd q) then q + 1 else q), dexp = e + 1\<rparr>"
proof -
  have "10 * 10 ^ 99 \<le> m" using m q by simp
  moreover have "m < 10 * 10 ^ 100" using m q by simp
  ultimately have nd: "ndigits m = 101" by (intro ndigits_eqI) simp_all
  have d: "m div 10 = q" "m mod 10 = t" using m by simp_all
  have q1: "ndigits (q + 1) \<le> 100" using q(2) by (rule ndigits_le) simp
  have mpos: "m \<noteq> 0" using m q by auto
  have changed: "round_half_even_up m (Suc 0) = (5 < t \<or> (t = 5 \<and> odd q))"
    using m(2) by (auto simp add: round_half_even_up_def Let_def d)
  show ?thesis using e q1 mpos
    by (simp add: dec_fix_def Let_def getcontext_def nd d changed)
qed

lemma to_integral_cert:
  assumes "e < 0" "0 < m" "m = q * 10 ^ nat (- e) + t" "t < 10 ^ nat (- e)"
  shows "to_integral_value_half_up \<lparr>dcoeff = int m, dexp = e\<rparr> =
           \<lparr>dcoeff = int (if 10 ^ nat (- e) \<le> 2 * t then q + 1 else q), dexp = 0\<rparr>"
proof -
  have d: "m div 10 ^ nat (- e) = q" "m mod 10 ^ nat (- e) = t" using assms(3,4) by simp_all
  show ?thesis using assms(1,2)
    by (simp add: to_integral_value_half_up_def Let_def round_half_up_up_def d)
qed

section \<open>The two sample moduli\<close>

lemma n_irregular_value: "n_irregular = 10000000000000000003900000000000000000000000000015100000000000000005889"
  by (simp add: n_irregular_def p1_def q1_def)

lemma n_irregular_ndigits: "ndigits 10000000000000000003900000000000000000000000000015100000000000000005889 = 71"
  by (rule ndigits_eqI) simp_all

lemma n_irregular_sqrt_unrounded:
  "dec_sqrt getcontext (Decimal 10000000000000000003900000000000000000000000000015100000000000000005889) =
     dec_fix getcontext \<lparr>dcoeff = 10000000000000000001949999999999999999809875000007550000037074375001472249990963121093606455627464217, dexp = - 65\<rparr>"
proof -
  have "dec_sqrt getcontext (Decimal 10000000000000000003900000000000000000000000000015100000000000000005889) =
          dec_fix getcontext \<lparr>dcoeff = int (if (10000000000000000001949999999999999999809875000007550000037074375001472249990963121093606455627464217::nat) mod 5 = 0 then 10000000000000000001949999999999999999809875000007550000037074375001472249990963121093606455627464217 + 1 else 10000000000000000001949999999999999999809875000007550000037074375001472249990963121093606455627464217), dexp = - int 65\<rparr>"
    by (rule dec_sqrt_inexact [where len = 71]) (simp_all add: n_irregular_ndigits getcontext_def)
  moreover have "(10000000000000000001949999999999999999809875000007550000037074375001472249990963121093606455627464217::nat) mod 5 = 2"
    by simp
  ultimately show ?thesis
    by simp
qed

lemma n_irregular_sqrt_rounding:
  "dec_fix getcontext \<lparr>dcoeff = 10000000000000000001949999999999999999809875000007550000037074375001472249990963121093606455627464217, dexp = - 65\<rparr> =
     Inr \<lparr>dcoeff = 1000000000000000000194999999999999999980987500000755000003707437500147224999096312109360645562746422, dexp = - 64\<rparr>"
  using dec_fix_round1 [of 10000000000000000001949999999999999999809875000007550000037074375001472249990963121093606455627464217 1000000000000000000194999999999999999980987500000755000003707437500147224999096312109360645562746421 7 "- 65"] by simp

lemma n_irregular_nearest:
  "to_integral_value_half_up \<lparr>dcoeff = 1000000000000000000194999999999999999980987500000755000003707437500147224999096312109360645562746422, dexp = - 64\<rparr> =
     \<lparr>dcoeff = 100000000000000000019500000000000000, dexp = 0\<rparr>"
proof -
  have e: "(- 64::int) < 0"
    by simp
  have m: "(0::nat) < 1000000000000000000194999999999999999980987500000755000003707437500147224999096312109360645562746422"
    by simp
  have split: "(1000000000000000000194999999999999999980987500000755000003707437500147224999096312109360645562746422::nat) =
      100000000000000000019499999999999999 * 10 ^ nat (- (- 64)) + 9980987500000755000003707437500147224999096312109360645562746422"
    by simp
  have frac: "(9980987500000755000003707437500147224999096312109360645562746422::nat) < 10 ^ nat (- (- 64))"
    by simp
  have half: "(10::nat) ^ nat (- (- 64)) \<le> 2 * 9980987500000755000003707437500147224999096312109360645562746422"
    by simp
  show ?thesis
    using to_integral_cert [OF e m split frac] half by simp
qed

lemma n_irregular_difference:
  "dec_sub getcontext \<lparr>dcoeff = 1000000000000000000194999999999999999980987500000755000003707437500147224999096312109360645562746422, dexp = - 64\<rparr>
       \<lparr>dcoeff = 100000000000000000019500000000000000, dexp = 0\<rparr> =
     Inr \<lparr>dcoeff = - 19012499999244999996292562499852775000903687890639354437253578, dexp = - 64\<rparr>"
  by (simp add: dec_sub_def dec_fix_id)

lemma n_irregular_abs:
  "dec_abs getcontext \<lparr>dcoeff = - 19012499999244999996292562499852775000903687890639354437253578, dexp = - 64\<rparr> =
     Inr \<lparr>dcoeff = 19012499999244999996292562499852775000903687890639354437253578, dexp = - 64\<rparr>"
  by (simp add: dec_abs_def dec_fix_id)

lemma phase_offset_n_irregular:
  "phase_offset n_irregular = Inr \<lparr>dcoeff = 19012499999244999996292562499852775000903687890639354437253578, dexp = - 64\<rparr>"
  by (simp add: phase_offset_def n_irregular_value n_irregular_sqrt_unrounded n_irregular_sqrt_rounding
        n_irregular_nearest n_irregular_difference n_irregular_abs)

lemma resonances_n_irregular:
  "resonances_loop GAMMAS \<lparr>dcoeff = 19012499999244999996292562499852775000903687890639354437253578, dexp = - 64\<rparr> [] =
     Inr [cos (float_of_decimal \<lparr>dcoeff = 268736459051828282572596390480731515124648379820017349148109080296050, dexp = - 70\<rparr>),
          cos (float_of_decimal \<lparr>dcoeff = 399681535484128359722062100574405030179997362984536134554122206859120, dexp = - 70\<rparr>),
          cos (float_of_decimal \<lparr>dcoeff = 475518918693616802872273810847380276600777008605412532402464712096346, dexp = - 70\<rparr>),
          cos (float_of_decimal \<lparr>dcoeff = 578452954927029218507201673780270697658394592015403919473489891206328, dexp = - 70\<rparr>),
          cos (float_of_decimal \<lparr>dcoeff = 626177847237634028822895319778963635674038015803168467391567263898258, dexp = - 70\<rparr>)]"
  by (simp add: GAMMAS_def dec_mul_def dec_fix_id)

lemma score_n_irregular:
  "score_arithmetic n_irregular =
     Inr ((cos (float_of_decimal \<lparr>dcoeff = 268736459051828282572596390480731515124648379820017349148109080296050, dexp = - 70\<rparr>) +
           cos (float_of_decimal \<lparr>dcoeff = 399681535484128359722062100574405030179997362984536134554122206859120, dexp = - 70\<rparr>) +
           cos (float_of_decimal \<lparr>dcoeff = 475518918693616802872273810847380276600777008605412532402464712096346, dexp = - 70\<rparr>) +
           cos (float_of_decimal \<lparr>dcoeff = 578452954927029218507201673780270697658394592015403919473489891206328, dexp = - 70\<rparr>) +
           cos (float_of_decimal \<lparr>dcoeff = 626177847237634028822895319778963635674038015803168467391567263898258, dexp = - 70\<rparr>)) / 5)"
  by (simp add: score_arithmetic_def phase_offset_n_irregular resonances_n_irregular)











text \<open>The anti-resonant test modulus.\<close>

lemma n_anti_resonant_value: "n_anti_resonant = 10000000000000000000000000000000000000000000000000000000000000000000000000000000000000000000000020000000000000000000000000000000000000000000000000000000000000000000000000000000000000000000000"
  by (simp add: n_anti_resonant_def)

lemma n_anti_resonant_ndigits: "ndigits 10000000000000000000000000000000000000000000000000000000000000000000000000000000000000000000000020000000000000000000000000000000000000000000000000000000000000000000000000000000000000000000000 = 191"
  by (rule ndigits_eqI) simp_all

lemma n_anti_resonant_sqrt_unrounded:
  "dec_sqrt getcontext (Decimal 10000000000000000000000000000000000000000000000000000000000000000000000000000000000000000000000020000000000000000000000000000000000000000000000000000000000000000000000000000000000000000000000) =
     dec_fix getcontext \<lparr>dcoeff = 10000000000000000000000000000000000000000000000000000000000000000000000000000000000000000000000009999, dexp = - 5\<rparr>"
proof -
  have "dec_sqrt getcontext (Decimal 10000000000000000000000000000000000000000000000000000000000000000000000000000000000000000000000020000000000000000000000000000000000000000000000000000000000000000000000000000000000000000000000) =
          dec_fix getcontext \<lparr>dcoeff = int (if (10000000000000000000000000000000000000000000000000000000000000000000000000000000000000000000000009999::nat) mod 5 = 0 then 10000000000000000000000000000000000000000000000000000000000000000000000000000000000000000000000009999 + 1 else 10000000000000000000000000000000000000000000000000000000000000000000000000000000000000000000000009999), dexp = - int 5\<rparr>"
    by (rule dec_sqrt_inexact [where len = 191]) (simp_all add: n_anti_resonant_ndigits getcontext_def)
  moreover have "(10000000000000000000000000000000000000000000000000000000000000000000000000000000000000000000000009999::nat) mod 5 = 4"
    by simp
  ultimately show ?thesis
    by simp
qed

lemma n_anti_resonant_sqrt_rounding:
  "dec_fix getcontext \<lparr>dcoeff = 10000000000000000000000000000000000000000000000000000000000000000000000000000000000000000000000009999, dexp = - 5\<rparr> =
     Inr \<lparr>dcoeff = 1000000000000000000000000000000000000000000000000000000000000000000000000000000000000000000000001000, dexp = - 4\<rparr>"
  using dec_fix_round1 [of 10000000000000000000000000000000000000000000000000000000000000000000000000000000000000000000000009999 1000000000000000000000000000000000000000000000000000000000000000000000000000000000000000000000000999 9 "- 5"] by simp

lemma n_anti_resonant_nearest:
  "to_integral_value_half_up \<lparr>dcoeff = 1000000000000000000000000000000000000000000000000000000000000000000000000000000000000000000000001000, dexp = - 4\<rparr> =
     \<lparr>dcoeff = 100000000000000000000000000000000000000000000000000000000000000000000000000000000000000000000000, dexp = 0\<rparr>"
proof -
  have e: "(- 4::int) < 0"
    by simp
  have m: "(0::nat) < 1000000000000000000000000000000000000000000000000000000000000000000000000000000000000000000000001000"
    by simp
  have split: "(1000000000000000000000000000000000000000000000000000000000000000000000000000000000000000000000001000::nat) =
      100000000000000000000000000000000000000000000000000000000000000000000000000000000000000000000000 * 10 ^ nat (- (- 4)) + 1000"
    by simp
  have frac: "(1000::nat) < 10 ^ nat (- (- 4))"
    by simp
  have half: "\<not> (10::nat) ^ nat (- (- 4)) \<le> 2 * 1000"
    by simp
  show ?thesis
    using to_integral_cert [OF e m split frac] half by simp
qed

lemma n_anti_resonant_difference:
  "dec_sub getcontext \<lparr>dcoeff = 1000000000000000000000000000000000000000000000000000000000000000000000000000000000000000000000001000, dexp = - 4\<rparr>
       \<lparr>dcoeff = 100000000000000000000000000000000000000000000000000000000000000000000000000000000000000000000000, dexp = 0\<rparr> =
     Inr \<lparr>dcoeff = 1000, dexp = - 4\<rparr>"
  by (simp add: dec_sub_def dec_fix_id)

lemma n_anti_resonant_abs:
  "dec_abs getcontext \<lparr>dcoeff = 1000, dexp = - 4\<rparr> =
     Inr \<lparr>dcoeff = 1000, dexp = - 4\<rparr>"
  by (simp add: dec_abs_def dec_fix_id)

lemma phase_offset_n_anti_resonant:
  "phase_offset n_anti_resonant = Inr \<lparr>dcoeff = 1000, dexp = - 4\<rparr>"
  by (simp add: phase_offset_def n_anti_resonant_value n_anti_resonant_sqrt_unrounded n_anti_resonant_sqrt_rounding
        n_anti_resonant_nearest n_anti_resonant_difference n_anti_resonant_abs)

lemma resonances_n_anti_resonant:
  "resonances_loop GAMMAS \<lparr>dcoeff = 1000, dexp = - 4\<rparr> [] =
     Inr [cos (float_of_decimal \<lparr>dcoeff = 14134725000, dexp = - 10\<rparr>),
          cos (float_of_decimal \<lparr>dcoeff = 21022040000, dexp = - 10\<rparr>),
          cos (float_of_decimal \<lparr>dcoeff = 25010857000, dexp = - 10\<rparr>),
          cos (float_of_decimal \<lparr>dcoeff = 30424876000, dexp = - 10\<rparr>),
          cos (float_of_decimal \<lparr>dcoeff = 32935061000, dexp = - 10\<rparr>)]"
  by (simp add: GAMMAS_def dec_mul_def dec_fix_id)

lemma score_n_anti_resonant:
  "score_arithmetic n_anti_resonant =
     Inr ((cos (float_of_decimal \<lparr>dcoeff = 14134725000, dexp = - 10\<rparr>) +
           cos (float_of_decimal \<lparr>dcoeff = 21022040000, dexp = - 10\<rparr>) +
           cos (float_of_decimal \<lparr>dcoeff = 25010857000, dexp = - 10\<rparr>) +
           cos (float_of_decimal \<lparr>dcoeff = 30424876000, dexp = - 10\<rparr>) +
           cos (float_of_decimal \<lparr>dcoeff = 32935061000, dexp = - 10\<rparr>)) / 5)"
  by (simp add: score_arithmetic_def phase_offset_n_anti_resonant resonances_n_anti_resonant)


lemma cos_lower_bound: "1 - x\<^sup>2 / 2 \<le> cos (x::real)"
proof -
  have "\<bar>sin (x / 2)\<bar> \<le> \<bar>x / 2\<bar>" by (rule abs_sin_x_le_abs_x)
  then have "(sin (x / 2))\<^sup>2 \<le> (x / 2)\<^sup>2" by (simp only: abs_le_square_iff)
  moreover have "cos x = 1 - 2 * (sin (x / 2))\<^sup>2"
    using cos_double_sin [of "x / 2"] by simp
  ultimately show ?thesis by (simp add: power_divide)
qed

lemma cos_upper_bound: "cos (x::real) \<le> 1 - x\<^sup>2 / 2 + x ^ 4 / 24"
proof -
  obtain t where "cos x = (\<Sum>m<4. cos_coeff m * x ^ m) + (cos (t + 1 / 2 * real 4 * pi) / fact 4) * x ^ 4"
    using Maclaurin_cos_expansion [of x 4] by blast
  moreover have "(\<Sum>m<4. cos_coeff m * x ^ m) = 1 - x\<^sup>2 / 2"
  proof -
    have "{..<4::nat} = {0, 1, 2, 3}" by auto
    then show ?thesis by (simp add: cos_coeff_def fact_numeral)
  qed
  moreover have "(cos (t + 1 / 2 * real 4 * pi) / fact 4) * x ^ 4 \<le> (1 / fact 4) * x ^ 4"
    by (intro mult_right_mono divide_right_mono) simp_all
  moreover have "fact 4 = (24::real)" by (simp add: eval_nat_numeral)
  ultimately show ?thesis by simp
qed

lemma cos_double_upper:
  assumes "1 - y\<^sup>2 / 2 + y ^ 4 / 24 \<le> 1 / 2" "y\<^sup>2 \<le> (3::real)"
  shows "cos (2 * y) \<le> - (1 / 2)"
proof -
  have "cos y \<le> 1 / 2" using cos_upper_bound [of y] assms(1) by linarith
  moreover have "- (1 / 2) \<le> cos y" using cos_lower_bound [of y] assms(2) by linarith
  ultimately have "\<bar>cos y\<bar> \<le> \<bar>1 / 2 :: real\<bar>" by simp
  then have "(cos y)\<^sup>2 \<le> (1 / 2)\<^sup>2" by (simp only: abs_le_square_iff)
  then have "(cos y)\<^sup>2 \<le> 1 / 4" by (simp add: power2_eq_square)
  then show ?thesis using cos_double_cos [of y] by simp
qed



lemma cos_obtuse_upper:
  assumes "1 - (x / 2)\<^sup>2 / 2 + (x / 2) ^ 4 / 24 \<le> 1 / 2" "(x / 2)\<^sup>2 \<le> (3::real)"
  shows "cos x \<le> - (1 / 2)"
  using cos_double_upper [OF assms] by simp

lemma mean5_mono:
  fixes a b c d e :: real
  assumes "a \<le> a'" "b \<le> b'" "c \<le> c'" "d \<le> d'" "e \<le> e'"
  shows "(a + b + c + d + e) / 5 \<le> (a' + b' + c' + d' + e') / 5"
  by (intro divide_right_mono add_mono assms) simp

lemma anti_resonant_score: "compute_spectral_coherence n_anti_resonant \<le> - (1 / 5)"
proof -
  have a0: "cos (float_of_decimal \<lparr>dcoeff = 14134725000, dexp = - 10\<rparr>) \<le> 1"
    by (rule cos_le_one)
  have a1: "cos (float_of_decimal \<lparr>dcoeff = 21022040000, dexp = - 10\<rparr>) \<le> - (1 / 2)"
    by (rule cos_obtuse_upper) (simp_all add: float_of_decimal_def power2_eq_square power4_eq_xxxx)
  have a2: "cos (float_of_decimal \<lparr>dcoeff = 25010857000, dexp = - 10\<rparr>) \<le> - (1 / 2)"
    by (rule cos_obtuse_upper) (simp_all add: float_of_decimal_def power2_eq_square power4_eq_xxxx)
  have a3: "cos (float_of_decimal \<lparr>dcoeff = 30424876000, dexp = - 10\<rparr>) \<le> - (1 / 2)"
    by (rule cos_obtuse_upper) (simp_all add: float_of_decimal_def power2_eq_square power4_eq_xxxx)
  have a4: "cos (float_of_decimal \<lparr>dcoeff = 32935061000, dexp = - 10\<rparr>) \<le> - (1 / 2)"
    by (rule cos_obtuse_upper) (simp_all add: float_of_decimal_def power2_eq_square power4_eq_xxxx)
  have "compute_spectral_coherence n_anti_resonant \<le>
      (1 + - (1 / 2) + - (1 / 2) + - (1 / 2) + - (1 / 2)) / 5"
    unfolding compute_spectral_coherence_def score_n_anti_resonant sum.case
    by (rule mean5_mono [OF a0 a1 a2 a3 a4])
  then show ?thesis by simp
qed

section \<open>The factors of the sample moduli\<close>









section \<open>The scores of the sample moduli\<close>


lemma resonances_loop_cos:
  "resonances_loop gs ph acc = Inr rs \<Longrightarrow>
     \<exists>xs. map (\<lambda>gamma. dec_mul getcontext gamma ph) gs = map Inr xs \<and>
          rs = acc @ map (\<lambda>x. cos (float_of_decimal x)) xs"
proof (induction gs arbitrary: acc)
  case Nil
  then show ?case by simp
next
  case (Cons g gs)
  from Cons.prems obtain x where x: "dec_mul getcontext g ph = Inr x"
    and rest: "resonances_loop gs ph (acc @ [cos (float_of_decimal x)]) = Inr rs"
    by (auto split: sum.splits)
  from Cons.IH [OF rest] obtain xs where
    xs: "map (\<lambda>gamma. dec_mul getcontext gamma ph) gs = map Inr xs"
        "rs = (acc @ [cos (float_of_decimal x)]) @ map (\<lambda>x. cos (float_of_decimal x)) xs"
    by blast
  show ?case
    by (rule exI [of _ "x # xs"]) (simp add: x xs)
qed

lemma sum_list_cos_le: "(\<Sum>x\<leftarrow>xs. cos (f x)) \<le> real (length xs)"
proof (induction xs)
  case Nil
  show ?case by simp
next
  case (Cons x xs)
  have "cos (f x) + (\<Sum>x\<leftarrow>xs. cos (f x)) \<le> 1 + real (length xs)"
    using cos_le_one Cons by (rule add_mono)
  then show ?case by simp
qed

lemma sum_list_cos_ge: "- real (length xs) \<le> (\<Sum>x\<leftarrow>xs. cos (f x))"
proof (induction xs)
  case Nil
  show ?case by simp
next
  case (Cons x xs)
  have "- 1 + - real (length xs) \<le> cos (f x) + (\<Sum>x\<leftarrow>xs. cos (f x))"
    using cos_ge_minus_one Cons by (rule add_mono)
  then show ?case by simp
qed

lemma huge_square_score:
  assumes "1000000 \<le> m"
  shows "compute_spectral_coherence (10 ^ m * 10 ^ m) = 0"
proof -
  have "nat \<bar>(10::int) ^ m\<bar> = 10 ^ m" by (simp add: nat_power_eq)
  then have "ndigits (nat \<bar>(10::int) ^ m\<bar>) = Suc m" by (simp only: ndigits_power10)
  with assms have "ndigits (nat \<bar>(10::int) ^ m\<bar>) > 1000000" by simp
  then have "dec_sqrt getcontext (Decimal (10 ^ m * 10 ^ m)) = Inl Overflow"
    by (rule large_square_overflow)
  then show ?thesis by (simp add: square_score)
qed

section \<open>Claims about compute\_spectral\_coherence\<close>

text \<open>
  Claim C1, as amended.  For a perfect square \<open>n = k * k\<close> the decimal square root is an
  integer, the phase offset is zero, every cosine is 1 and the score is exactly 1,
  unless \<^verbatim>\<open>Decimal.sqrt\<close> raises \<^verbatim>\<open>Overflow\<close> because the root exceeds the context's
  exponent range; the handler then returns 0.  No overflow occurs while \<open>k\<close> has at most
  999999 decimal digits.
\<close>

theorem perfect_square_score:
  "(ndigits (nat \<bar>k\<bar>) \<le> 999999 \<longrightarrow> compute_spectral_coherence (k * k) = 1) \<and>
   (compute_spectral_coherence (k * k) = 1 \<or>
    dec_sqrt getcontext (Decimal (k * k)) = Inl Overflow \<and> compute_spectral_coherence (k * k) = 0)"
proof -
  have "ndigits (nat \<bar>k\<bar>) \<le> 999999 \<Longrightarrow> compute_spectral_coherence (k * k) = 1"
    using small_square_no_overflow [of k] by (simp add: square_score)
  moreover have "compute_spectral_coherence (k * k) = 1 \<or>
    dec_sqrt getcontext (Decimal (k * k)) = Inl Overflow \<and> compute_spectral_coherence (k * k) = 0"
    by (simp add: square_score)
  ultimately show ?thesis by blast
qed

text \<open>
  Witness for C1: the squares 9, 0 and 1 (the latter two are the edge cases the
  specification names) score exactly 1.
\<close>

theorem perfect_square_score_witness:
  "ndigits (nat \<bar>3\<bar>) \<le> 999999 \<and> compute_spectral_coherence (3 * 3) = 1 \<and>
   compute_spectral_coherence (0 * 0) = 1 \<and> compute_spectral_coherence (1 * 1) = 1"
proof -
  have "ndigits (nat \<bar>3\<bar>) \<le> 999999" "ndigits (nat \<bar>0\<bar>) \<le> 999999" "ndigits (nat \<bar>1\<bar>) \<le> 999999"
    by (simp_all add: ndigits.simps)
  then show ?thesis
    using perfect_square_score [of 3] perfect_square_score [of 0] perfect_square_score [of 1]
    by blast
qed

text \<open>
  Counterexample to C1 as stated: \<open>n = (10 ^ 1000000)\<^sup>2\<close> is a perfect square, but its root
  has the adjusted exponent 1000000 > Emax, \<^verbatim>\<open>Decimal.sqrt\<close> raises \<^verbatim>\<open>Overflow\<close>, and the
  score returned is 0, not 1.
\<close>

theorem perfect_square_overflow_counterexample:
  "compute_spectral_coherence (10 ^ 1000000 * 10 ^ 1000000) \<noteq> 1"
proof -
  have zero: "compute_spectral_coherence (10 ^ 1000000 * 10 ^ 1000000) = 0"
    by (rule huge_square_score) (rule order_refl)
  show ?thesis unfolding zero by (rule zero_neq_one)
qed




text \<open>
  Claim C3.  Whenever the arithmetic raises no exception, the returned score is the
  arithmetic mean of \<open>cos (gamma * phase_offset)\<close> over the five frequencies of
  \<open>GAMMAS\<close>, and it lies in \<open>[-1, 1]\<close>.  It is not clipped to \<open>[0, 1]\<close>: the modulus
  \<open>10 ^ 190 + 2 * 10 ^ 94\<close>, with phase offset 0.1000, scores at most \<open>-1/5\<close>.
\<close>

theorem score_is_mean_of_cosines:
  assumes "score_arithmetic n = Inr score"
  shows "\<exists>phase xs. phase_offset n = Inr phase \<and>
           map (\<lambda>gamma. dec_mul getcontext gamma phase) GAMMAS = map Inr xs \<and>
           length xs = 5 \<and>
           compute_spectral_coherence n = (\<Sum>x\<leftarrow>xs. cos (float_of_decimal x)) / 5 \<and>
           - 1 \<le> compute_spectral_coherence n \<and> compute_spectral_coherence n \<le> 1 \<and>
           compute_spectral_coherence n_anti_resonant \<le> - (1 / 5)"
proof -
  from assms obtain phase rs where phase: "phase_offset n = Inr phase"
    and rs: "resonances_loop GAMMAS phase [] = Inr rs"
    and score: "score = sum_list rs / real (length rs)"
    by (auto simp: score_arithmetic_def split: sum.splits if_splits)
  from resonances_loop_cos [OF rs] obtain xs where
    xs: "map (\<lambda>gamma. dec_mul getcontext gamma phase) GAMMAS = map Inr xs"
        "rs = map (\<lambda>x. cos (float_of_decimal x)) xs"
    by auto
  have "length (map (\<lambda>gamma. dec_mul getcontext gamma phase) GAMMAS) = 5"
    by (simp add: GAMMAS_def)
  then have len: "length xs = 5" unfolding xs(1) by simp
  have mean: "compute_spectral_coherence n = (\<Sum>x\<leftarrow>xs. cos (float_of_decimal x)) / 5"
    using assms score xs(2) len by (simp add: compute_spectral_coherence_def)
  have "- 5 \<le> (\<Sum>x\<leftarrow>xs. cos (float_of_decimal x))" "(\<Sum>x\<leftarrow>xs. cos (float_of_decimal x)) \<le> 5"
    using sum_list_cos_ge [where f = float_of_decimal and xs = xs]
      sum_list_cos_le [where f = float_of_decimal and xs = xs] len
    by simp_all
  then have "- 1 \<le> compute_spectral_coherence n" "compute_spectral_coherence n \<le> 1"
    unfolding mean by simp_all
  with phase xs(1) len mean anti_resonant_score show ?thesis by blast
qed

text \<open>Witness for C3: the arithmetic succeeds on the first sample modulus.\<close>

theorem score_is_mean_of_cosines_witness:
  "\<exists>score. score_arithmetic n_irregular = Inr score \<and>
     (\<exists>phase xs. phase_offset n_irregular = Inr phase \<and>
           map (\<lambda>gamma. dec_mul getcontext gamma phase) GAMMAS = map Inr xs \<and>
           length xs = 5 \<and>
           compute_spectral_coherence n_irregular = (\<Sum>x\<leftarrow>xs. cos (float_of_decimal x)) / 5 \<and>
           - 1 \<le> compute_spectral_coherence n_irregular \<and> compute_spectral_coherence n_irregular \<le> 1 \<and>
           compute_spectral_coherence n_anti_resonant \<le> - (1 / 5))"
  using score_is_mean_of_cosines [OF score_n_irregular] score_n_irregular by blast

text \<open>
  Claim C8.  Whenever the arithmetic raises an exception, \<open>compute_spectral_coherence\<close>
  returns 0; in particular every negative \<open>n\<close> raises \<^verbatim>\<open>InvalidOperation\<close> in the square
  root and scores 0.
\<close>

theorem exception_gives_zero_score:
  "(score_arithmetic n = Inl e \<longrightarrow> compute_spectral_coherence n = 0) \<and>
   (n < 0 \<longrightarrow> score_arithmetic n = Inl InvalidOperation \<and> compute_spectral_coherence n = 0)"
  by (simp add: compute_spectral_coherence_def score_arithmetic_def phase_offset_def
      dec_sqrt_def Decimal_def)

text \<open>Witness for C8: \<open>n = -4\<close>.\<close>

theorem exception_gives_zero_score_witness:
  "score_arithmetic (- 4) = Inl InvalidOperation \<and> (- 4 :: int) < 0 \<and> compute_spectral_coherence (- 4) = 0"
  using exception_gives_zero_score [of "- 4" InvalidOperation] by simp

section \<open>Properties of the indicator builders\<close>

lemma sqrt_search_correct:
  "r * r \<le> n \<Longrightarrow> sqrt_search n r * sqrt_search n r \<le> n \<and> n < (sqrt_search n r + 1) * (sqrt_search n r + 1)"
proof (induction n r rule: sqrt_search.induct)
  case (1 n r)
  show ?case
  proof (cases "(r + 1) * (r + 1) \<le> n")
    case True
    then have "sqrt_search n r = sqrt_search n (r + 1)" by (subst sqrt_search.simps) simp
    with 1(1) [OF True True] show ?thesis by simp
  next
    case False
    then have "sqrt_search n r = r" by (subst sqrt_search.simps) simp
    with False 1(2) show ?thesis by simp
  qed
qed

lemma floor_sqrt_bounds:
  "floor_sqrt n * floor_sqrt n \<le> n" "n < (floor_sqrt n + 1) * (floor_sqrt n + 1)"
  using sqrt_search_correct [of 0 n] by (simp_all add: floor_sqrt_def)

lemma floor_sqrt_eqI:
  assumes "r * r \<le> n" "n < (r + 1) * (r + 1)"
  shows "floor_sqrt n = r"
proof -
  have "floor_sqrt n * floor_sqrt n < (r + 1) * (r + 1)"
    using floor_sqrt_bounds(1) [of n] assms(2) by linarith
  then have "floor_sqrt n < r + 1" by (rule nat_sq_less_D)
  moreover have "r * r < (floor_sqrt n + 1) * (floor_sqrt n + 1)"
    using floor_sqrt_bounds(2) [of n] assms(1) by linarith
  then have "r < floor_sqrt n + 1" by (rule nat_sq_less_D)
  ultimately show ?thesis by simp
qed

lemma floor_sqrt_real: "floor_sqrt n = nat \<lfloor>sqrt (real n)\<rfloor>"
proof -
  let ?r = "floor_sqrt n"
  have "real (?r * ?r) \<le> real n" using floor_sqrt_bounds(1) [of n] by (simp only: of_nat_le_iff)
  then have "(real ?r)\<^sup>2 \<le> real n" by (simp add: power2_eq_square)
  then have lo: "real ?r \<le> sqrt (real n)" by (rule real_le_rsqrt)
  have "real n < real ((?r + 1) * (?r + 1))" using floor_sqrt_bounds(2) [of n] by (simp only: of_nat_less_iff)
  then have "real n < (real ?r + 1)\<^sup>2" by (simp add: power2_eq_square algebra_simps)
  then have hi: "sqrt (real n) < real ?r + 1" by (intro real_less_lsqrt) simp_all
  have "\<lfloor>sqrt (real n)\<rfloor> = int ?r" using lo hi by (intro floor_unique) simp_all
  then show ?thesis by simp
qed

lemma slice_assign_ok:
  "0 < step \<Longrightarrow>
     slice_assign xs start stop step v =
       Inr (map (\<lambda>j. if start \<le> j \<and> j < stop \<and> (j - start) mod step = 0 then v else xs ! j)
              [0..<length xs])"
  by (simp add: slice_assign_def)

lemma sieved_init: "sieved (Suc 0) j \<longleftrightarrow> 2 \<le> j"
  by (auto simp: sieved_def)

lemma initial_marks:
  "slice_assign (np_ones n) 0 2 1 False = Inr (map (sieved 1) [0..<n])"
  by (auto simp: slice_assign_def np_ones_def sieved_init)

lemma sieved_step_marked:
  assumes "2 \<le> a" "j < n"
  shows "(if a * a \<le> j \<and> j < n \<and> (j - a * a) mod a = 0 then False else sieved (a - 1) j) = sieved a j"
proof -
  have dvd: "(j - a * a) mod a = 0 \<longleftrightarrow> a dvd j" if "a * a \<le> j"
  proof -
    have "j = (j - a * a) + a * a" using that by simp
    then have "a dvd j \<longleftrightarrow> a dvd (j - a * a)"
      by (metis dvd_add_left_iff dvd_triv_left)
    then show ?thesis by (simp add: mod_eq_0_iff_dvd)
  qed
  have split: "d \<le> a \<longleftrightarrow> d \<le> a - 1 \<or> d = a" for d using assms(1) by auto
  show ?thesis
  proof (cases "a * a \<le> j \<and> a dvd j")
    case True
    then have "\<not> sieved a j" using assms(1) by (auto simp: sieved_def)
    with True dvd assms(2) show ?thesis by simp
  next
    case False
    have "sieved a j \<longleftrightarrow> sieved (a - 1) j"
      unfolding sieved_def using False by (auto simp: split)
    with False dvd assms(2) show ?thesis by auto
  qed
qed

lemma sieved_step_unmarked:
  assumes "2 \<le> a" "\<not> sieved (a - 1) a"
  shows "sieved (a - 1) j = sieved a j"
proof -
  from assms obtain d where d: "2 \<le> d" "d \<le> a - 1" "d * d \<le> a" "d dvd a"
    by (auto simp: sieved_def)
  have "\<not> (a * a \<le> j \<and> a dvd j)" if "sieved (a - 1) j"
  proof
    assume aj: "a * a \<le> j \<and> a dvd j"
    have "a \<le> a * a" by simp
    then have "d * d \<le> j" using d(3) aj by linarith
    moreover have "d dvd j" using d(4) aj by (meson dvd_trans)
    ultimately show False using that d(1,2) by (auto simp: sieved_def)
  qed
  moreover have "d' \<le> a \<longleftrightarrow> d' \<le> a - 1 \<or> d' = a" for d' using assms(1) by auto
  ultimately show ?thesis unfolding sieved_def by (metis (no_types, lifting) diff_le_self order_trans)
qed

lemma sieve_loop_invariant:
  assumes "2 \<le> a" "a \<le> b" "(b - 1) * (b - 1) \<le> n \<or> a = b"
  shows "sieve_loop [a..<b] (map (sieved (a - 1)) [0..<n]) = Inr (map (sieved (b - 1)) [0..<n])"
  using assms
proof (induction "b - a" arbitrary: a)
  case 0
  then show ?case by simp
next
  case (Suc k)
  then have ab: "a < b" by simp
  then have sq: "(b - 1) * (b - 1) \<le> n" using Suc.prems by simp
  have "a * a \<le> (b - 1) * (b - 1)" using ab by (intro mult_le_mono) simp_all
  then have aa: "a * a \<le> n" using sq by simp
  have "a * 2 \<le> a * a" using Suc.prems(1) by (intro mult_le_mono) simp_all
  then have an: "a < n" using aa Suc.prems(1) by linarith
  have upt: "[a..<b] = a # [a + 1..<b]" using ab by (simp add: upt_conv_Cons)
  have get: "getitem (map (sieved (a - 1)) [0..<n]) a = Inr (sieved (a - 1) a)"
    using an by (simp add: getitem_def)
  have IH: "sieve_loop [a + 1..<b] (map (sieved a) [0..<n]) = Inr (map (sieved (b - 1)) [0..<n])"
    using Suc.hyps(1) [of "a + 1"] Suc.hyps(2) Suc.prems ab sq by simp
  show ?case
  proof (cases "sieved (a - 1) a")
    case True
    have "map (\<lambda>j. if a * a \<le> j \<and> j < n \<and> (j - a * a) mod a = 0 then False
                  else map (sieved (a - 1)) [0..<n] ! j) [0..<n] = map (sieved a) [0..<n]"
    proof (rule map_cong [OF refl])
      fix j assume "j \<in> set [0..<n]"
      then have j: "j < n" by simp
      then have "map (sieved (a - 1)) [0..<n] ! j = sieved (a - 1) j" by simp
      then show "(if a * a \<le> j \<and> j < n \<and> (j - a * a) mod a = 0 then False
                  else map (sieved (a - 1)) [0..<n] ! j) = sieved a j"
        using sieved_step_marked [OF Suc.prems(1) j] by (simp only:)
    qed
    moreover have "0 < a" using Suc.prems(1) by simp
    ultimately have "slice_assign (map (sieved (a - 1)) [0..<n]) (a * a) n a False = Inr (map (sieved a) [0..<n])"
      by (simp only: slice_assign_ok length_map length_upt diff_zero)
    then show ?thesis using True get IH by (simp add: upt)
  next
    case False
    have same: "map (sieved (a - 1)) [0..<n] = map (sieved a) [0..<n]"
      using sieved_step_unmarked [OF Suc.prems(1) False] by simp
    have "sieve_loop [a..<b] (map (sieved (a - 1)) [0..<n]) =
            sieve_loop [a + 1..<b] (map (sieved (a - 1)) [0..<n])"
      using False get by (simp add: upt)
    also have "\<dots> = Inr (map (sieved (b - 1)) [0..<n])"
      unfolding same by (rule IH)
    finally show ?thesis .
  qed
qed

lemma sieved_is_prime:
  assumes "j < (m + 1) * (m + 1)"
  shows "sieved m j \<longleftrightarrow> is_prime j"
proof
  assume s: "sieved m j"
  then have j2: "2 \<le> j" by (simp add: sieved_def)
  have "d = 1 \<or> d = j" if "d dvd j" for d
  proof (rule ccontr)
    assume nt: "\<not> (d = 1 \<or> d = j)"
    from that obtain e where e: "j = d * e" by (auto simp: dvd_def)
    have dpos: "0 < d" "0 < e" using e j2 by (auto intro: Nat.gr0I)
    then have d2: "2 \<le> d" using nt by auto
    have "e \<noteq> 1" using e nt by auto
    then have e2: "2 \<le> e" using dpos by auto
    define c where "c = min d e"
    have c2: "2 \<le> c" using d2 e2 by (simp add: c_def)
    have cdvd: "c dvd j" using e by (auto simp: c_def min_def)
    have "c * c \<le> d * e" unfolding c_def by (intro mult_le_mono) simp_all
    then have cc: "c * c \<le> j" using e by simp
    then have "c * c < (m + 1) * (m + 1)" using assms by simp
    then have "c < m + 1" by (rule nat_sq_less_D)
    then have "c \<le> m" by simp
    with s c2 cc cdvd show False by (auto simp: sieved_def)
  qed
  with j2 show "is_prime j" by (simp add: is_prime_def)
next
  assume p: "is_prime j"
  then have j2: "2 \<le> j" by (simp add: is_prime_def)
  have "\<not> d dvd j" if "2 \<le> d" "d * d \<le> j" for d
  proof
    assume "d dvd j"
    with p have "d = 1 \<or> d = j" by (simp add: is_prime_def)
    with that(1) have "d = j" by simp
    then have "j * j \<le> j" using that(2) by simp
    with j2 show False by simp
  qed
  with j2 show "sieved m j" by (auto simp: sieved_def)
qed

lemma sieve_result:
  assumes "m * m \<le> n" "n \<le> (m + 1) * (m + 1)"
  shows "sieve_loop [2..<m + 1] (map (sieved 1) [0..<n]) = Inr (map is_prime [0..<n])"
proof (cases "2 \<le> m + 1")
  case True
  have "sieve_loop [2..<m + 1] (map (sieved (2 - 1)) [0..<n]) = Inr (map (sieved (m + 1 - 1)) [0..<n])"
    using True assms(1) by (intro sieve_loop_invariant) simp_all
  moreover have "map (sieved m) [0..<n] = map is_prime [0..<n]"
    using assms(2) by (auto intro!: sieved_is_prime)
  ultimately show ?thesis by simp
next
  case False
  then have m: "m = 0" by simp
  then have "n \<le> 1" using assms(2) by simp
  then have "map (sieved 1) [0..<n] = map is_prime [0..<n]"
    by (auto simp: sieved_init is_prime_def)
  then show ?thesis using m by simp
qed

lemma get_primes_correct:
  "get_primes n = Inr (map (\<lambda>j. if is_prime j then 1 else 0) [0..<n])"
proof -
  have "sieve_loop [2..<floor_sqrt n + 1] (map (sieved 1) [0..<n]) = Inr (map is_prime [0..<n])"
    using floor_sqrt_bounds [of n] by (intro sieve_result) simp_all
  then show ?thesis
    unfolding get_primes_def initial_marks sum.case
    by (simp only: sum.case) (simp add: astype_float64_def comp_def)
qed

lemma spec_build_prime_correct:
  "spec_build_prime n = Inr (map (\<lambda>j. if is_prime j then 1 else 0) [0..<n])"
proof -
  have "floor_sqrt (n - 1) * floor_sqrt (n - 1) \<le> n"
    using floor_sqrt_bounds(1) [of "n - 1"] by simp
  moreover have "n \<le> (floor_sqrt (n - 1) + 1) * (floor_sqrt (n - 1) + 1)"
    using floor_sqrt_bounds(2) [of "n - 1"] by simp
  ultimately have "sieve_loop [2..<floor_sqrt (n - 1) + 1] (map (sieved 1) [0..<n]) = Inr (map is_prime [0..<n])"
    by (rule sieve_result)
  then show ?thesis
    unfolding spec_build_prime_def initial_marks sum.case
    by (simp only: sum.case) (simp add: astype_float64_def comp_def)
qed

lemma squares_loop_invariant:
  assumes "1 \<le> a" "a \<le> b" "(b - 1) * (b - 1) < n \<or> a = b"
  shows "squares_loop [a..<b] (map (\<lambda>j. if \<exists>i. 1 \<le> i \<and> i < a \<and> j = i * i then 1 else 0) [0..<n]) =
           Inr (map (\<lambda>j. if \<exists>i. 1 \<le> i \<and> i < b \<and> j = i * i then 1 else 0) [0..<n])"
  using assms
proof (induction "b - a" arbitrary: a)
  case 0
  then show ?case by simp
next
  case (Suc k)
  then have ab: "a < b" by simp
  then have sq: "(b - 1) * (b - 1) < n" using Suc.prems by simp
  have "a * a \<le> (b - 1) * (b - 1)" using ab by (intro mult_le_mono) simp_all
  then have aa: "a * a < n" using sq by simp
  have upt: "[a..<b] = a # [a + 1..<b]" using ab by (simp add: upt_conv_Cons)
  let ?f = "\<lambda>a j. if \<exists>i. 1 \<le> i \<and> i < a \<and> j = i * i then (1::real) else 0"
  have upd: "(map (?f a) [0..<n])[a * a := 1] = map (?f (a + 1)) [0..<n]"
  proof (rule nth_equalityI)
    show "length ((map (?f a) [0..<n])[a * a := 1]) = length (map (?f (a + 1)) [0..<n])" by simp
  next
    fix j assume "j < length ((map (?f a) [0..<n])[a * a := 1])"
    then have j: "j < n" by simp
    have ex: "(\<exists>i. 1 \<le> i \<and> i < a + 1 \<and> j = i * i) \<longleftrightarrow>
                (\<exists>i. 1 \<le> i \<and> i < a \<and> j = i * i) \<or> j = a * a"
      using Suc.prems(1) by (auto simp: less_Suc_eq)
    show "(map (?f a) [0..<n])[a * a := 1] ! j = map (?f (a + 1)) [0..<n] ! j"
    proof (cases "j = a * a")
      case True
      then show ?thesis using j ex by (simp del: One_nat_def)
    next
      case False
      then show ?thesis using j ex by (simp del: One_nat_def)
    qed
  qed
  have set: "setitem (map (?f a) [0..<n]) (a * a) 1 = Inr (map (?f (a + 1)) [0..<n])"
    using aa upd by (simp add: setitem_def)
  have IH: "squares_loop [a + 1..<b] (map (?f (a + 1)) [0..<n]) = Inr (map (?f b) [0..<n])"
    using Suc.hyps(1) [of "a + 1"] Suc.hyps(2) Suc.prems ab sq by simp
  show ?case unfolding upt squares_loop.simps set sum.case by (rule IH)
qed

lemma get_squares_correct:
  assumes "0 < n"
  shows "get_squares n =
           Inr (map (\<lambda>j. if \<exists>i. 1 \<le> i \<and> i \<le> floor_sqrt (n - 1) \<and> j = i * i then 1 else 0) [0..<n])"
proof -
  let ?m = "floor_sqrt (n - 1)"
  have "?m * ?m < n" using floor_sqrt_bounds(1) [of "n - 1"] assms by simp
  then have "squares_loop [1..<?m + 1] (map (\<lambda>j. if \<exists>i. 1 \<le> i \<and> i < 1 \<and> j = i * i then 1 else 0) [0..<n]) =
           Inr (map (\<lambda>j. if \<exists>i. 1 \<le> i \<and> i < ?m + 1 \<and> j = i * i then 1 else 0) [0..<n])"
    by (intro squares_loop_invariant) simp_all
  moreover have "map (\<lambda>j. if \<exists>i. 1 \<le> i \<and> i < 1 \<and> j = i * i then 1 else 0) [0..<n] = np_zeros n"
    by (simp add: np_zeros_def map_replicate_const)
  moreover have "i < ?m + 1 \<longleftrightarrow> i \<le> ?m" for i by auto
  ultimately have "squares_loop [1..<?m + 1] (np_zeros n) =
           Inr (map (\<lambda>j. if \<exists>i. 1 \<le> i \<and> i \<le> ?m \<and> j = i * i then 1 else 0) [0..<n])"
    by (simp only:)
  then show ?thesis unfolding get_squares_def Let_def using assms by (simp only: if_False) simp
qed

lemma get_squares_17:
  "get_squares 17 = Inr [0, 1, 0, 0, 1, 0, 0, 0, 0, 1, 0, 0, 0, 0, 0, 0, 1]"
proof -
  have "floor_sqrt 16 = 4" by (rule floor_sqrt_eqI) simp_all
  then show ?thesis
    by (simp add: get_squares_def np_zeros_def setitem_def upt_rec numeral_eq_Suc)
qed

section \<open>Properties of the spectral pipeline\<close>

lemma norm_zero_vector: "np_linalg_norm (replicate n 0) = 0"
  by (simp add: np_linalg_norm_def sum_list_replicate)

lemma np_sum_NaN: "foldl f64_add NaN xs = NaN"
  by (induction xs) simp_all

lemma np_sum_replicate_NaN: "0 < n \<Longrightarrow> np_sum (replicate n NaN) = NaN"
  by (cases n) (simp_all add: np_sum_def np_sum_NaN)

lemma normalized_zero_vector:
  "normalized_state_vector (replicate n 0) = replicate n NaN"
  by (simp add: normalized_state_vector_def norm_zero_vector Let_def)

lemma finite_values_NaN: "0 < n \<Longrightarrow> finite_values (replicate n NaN) = None"
  by (cases n) simp_all

lemma initialize_NaN: "initialize n_qubits (replicate n NaN) = Inl QiskitError"
proof (cases "n = 2 ^ n_qubits")
  case True
  then have "0 < n" by simp
  then show ?thesis by (simp add: initialize_def finite_values_NaN)
next
  case False
  then show ?thesis by (simp add: initialize_def)
qed

lemma spectrum_via_state_vector:
  "millionaire_scan_spectrum n_qubits data =
     (case initialize n_qubits (normalized_state_vector data) of
        Inl err \<Rightarrow> Inl err
      | Inr amplitudes \<Rightarrow> Inr (map (\<lambda>z. (cmod z)\<^sup>2) (qft_no_swaps n_qubits amplitudes)))"
  unfolding millionaire_scan_spectrum_def normalized_state_vector_def Let_def by (rule refl)

lemma pipelines_equal:
  "jinx_square_spectrum n_qubits data = millionaire_scan_spectrum n_qubits data"
  by (simp add: jinx_square_spectrum_def millionaire_scan_spectrum_def)

lemma zero_vector_spectrum:
  "millionaire_scan_spectrum n_qubits (replicate n 0) = Inl QiskitError"
  by (simp add: spectrum_via_state_vector normalized_zero_vector initialize_NaN)

lemma not_prime_below_2: "j < 2 \<Longrightarrow> \<not> is_prime j"
  by (simp add: is_prime_def)

lemma get_primes_small:
  assumes "n \<le> 2"
  shows "get_primes n = Inr (replicate n 0)"
proof -
  have "map (\<lambda>j. if is_prime j then 1 else 0 :: real) [0..<n] = map (\<lambda>j. 0) [0..<n]"
    using assms by (intro map_cong refl) (simp add: not_prime_below_2)
  then show ?thesis by (simp add: get_primes_correct map_replicate_const)
qed

lemma root_of_unity_neq_one:
  assumes "j < N" "l < N" "j \<noteq> l"
  shows "cis (2 * pi * (real j - real l) / real N) \<noteq> 1"
proof
  assume "cis (2 * pi * (real j - real l) / real N) = 1"
  then have "Re (cis (2 * pi * (real j - real l) / real N)) = Re 1"
    by (simp only:)
  then have "cos (2 * pi * (real j - real l) / real N) = 1"
    by simp
  then obtain m :: int where m: "2 * pi * (real j - real l) / real N = of_int m * 2 * pi"
    using cos_one_2pi_int by blast
  have N: "0 < real N" using assms(1) by simp
  from m have "(2 * pi) * ((real j - real l) / real N) = (2 * pi) * of_int m"
    by (simp add: algebra_simps)
  then have "(real j - real l) / real N = of_int m"
    by (simp only: mult_cancel_left) simp
  then have eq: "real j - real l = of_int m * real N" using N by (simp add: field_simps)
  then have "real_of_int (int j - int l) = real_of_int (m * int N)" by simp
  then have eq': "int j - int l = m * int N" by (simp only: of_int_eq_iff)
  have "\<bar>int j - int l\<bar> < int N" using assms(1,2) by simp
  then have "\<bar>m\<bar> * int N < 1 * int N" using eq' by (simp add: abs_mult)
  then have "\<bar>m\<bar> < 1" by (simp only: mult_less_cancel_right)
  then have "m = 0" by simp
  with eq' assms(3) show False by simp
qed

lemma roots_of_unity_orthogonal:
  assumes "j < N" "l < N"
  shows "(\<Sum>k<N. cis (2 * pi * real j * real k / real N) * cnj (cis (2 * pi * real l * real k / real N))) =
           (if j = l then of_nat N else 0)"
proof -
  define z where "z = cis (2 * pi * (real j - real l) / real N)"
  have pw: "cis (2 * pi * real j * real k / real N) * cnj (cis (2 * pi * real l * real k / real N)) = z ^ k" for k
  proof -
    have "cis (2 * pi * real j * real k / real N) * cnj (cis (2 * pi * real l * real k / real N)) =
            cis (2 * pi * real j * real k / real N + - (2 * pi * real l * real k / real N))"
      by (simp only: cis_cnj cis_mult)
    also have "2 * pi * real j * real k / real N + - (2 * pi * real l * real k / real N) =
            real k * (2 * pi * (real j - real l) / real N)"
      by (simp add: diff_divide_distrib algebra_simps)
    finally show ?thesis by (simp add: z_def DeMoivre)
  qed
  have N: "0 < N" using assms(1) by simp
  have sum_eq: "(\<Sum>k<N. cis (2 * pi * real j * real k / real N) * cnj (cis (2 * pi * real l * real k / real N))) =
      (\<Sum>k<N. z ^ k)"
    by (simp only: pw)
  show ?thesis unfolding sum_eq
  proof (cases "j = l")
    case True
    then have "z = 1" by (simp add: z_def)
    then have "(\<Sum>k<N. z ^ k) = of_nat N" by simp
    then show "(\<Sum>k<N. z ^ k) = (if j = l then of_nat N else 0)" using True by simp
  next
    case False
    then have z1: "z \<noteq> 1" unfolding z_def using assms by (intro root_of_unity_neq_one)
    have "z ^ N = cis (real N * (2 * pi * (real j - real l) / real N))"
      by (simp add: z_def DeMoivre)
    also have "real N * (2 * pi * (real j - real l) / real N) = 2 * pi * (real j - real l)"
      using N by simp
    also have "cis (2 * pi * (real j - real l)) = 1"
    proof -
      have "real j - real l = real_of_int (int j - int l)" by simp
      then have "real j - real l \<in> \<int>" by (metis Ints_of_int)
      then show ?thesis by (rule cis_multiple_2pi)
    qed
    finally have zN: "z ^ N = 1" .
    have "(\<Sum>k<N. z ^ k) = (z ^ N - 1) / (z - 1)" using z1 by (rule geometric_sum)
    then have "(\<Sum>k<N. z ^ k) = 0" by (simp add: zN)
    then show "(\<Sum>k<N. z ^ k) = (if j = l then of_nat N else 0)" using False by simp
  qed
qed

lemma dft_parseval:
  assumes "0 < length a"
  shows "(\<Sum>k<length a. (cmod (dft_coeff a k))\<^sup>2) = (\<Sum>j<length a. (cmod (a ! j))\<^sup>2)"
proof -
  define N where "N = length a"
  define w where "w j k = cis (2 * pi * real j * real k / real N)" for j k
  define S where "S k = (\<Sum>j<N. a ! j * w j k)" for k
  have N: "0 < N" using assms by (simp add: N_def)
  have c2: "complex_of_real (sqrt (real N)) * complex_of_real (sqrt (real N)) = of_nat N"
    by (simp flip: of_real_mult)
  have coeff: "dft_coeff a k = S k / complex_of_real (sqrt (real N))" for k
    by (simp add: dft_coeff_def S_def w_def N_def)
  have sq: "dft_coeff a k * cnj (dft_coeff a k) = S k * cnj (S k) / of_nat N" for k
    by (simp add: coeff c2)
  have prod: "S k * cnj (S k) = (\<Sum>j<N. \<Sum>l<N. a ! j * cnj (a ! l) * (w j k * cnj (w l k)))" for k
    by (simp add: S_def sum_product algebra_simps)
  have "(\<Sum>k<N. S k * cnj (S k)) = (\<Sum>k<N. \<Sum>j<N. \<Sum>l<N. a ! j * cnj (a ! l) * (w j k * cnj (w l k)))"
    by (simp only: prod)
  also have "\<dots> = (\<Sum>j<N. \<Sum>k<N. \<Sum>l<N. a ! j * cnj (a ! l) * (w j k * cnj (w l k)))"
    by (rule sum.swap)
  also have "\<dots> = (\<Sum>j<N. \<Sum>l<N. \<Sum>k<N. a ! j * cnj (a ! l) * (w j k * cnj (w l k)))"
    by (intro sum.cong refl sum.swap)
  also have "\<dots> = (\<Sum>j<N. \<Sum>l<N. a ! j * cnj (a ! l) * (\<Sum>k<N. w j k * cnj (w l k)))"
    by (simp only: sum_distrib_left)
  also have "\<dots> = (\<Sum>j<N. \<Sum>l<N. a ! j * cnj (a ! l) * (if j = l then of_nat N else 0))"
  proof (intro sum.cong refl)
    fix j l assume "j \<in> {..<N}" "l \<in> {..<N}"
    then have "j < N" "l < N" by simp_all
    then have "(\<Sum>k<N. w j k * cnj (w l k)) = (if j = l then of_nat N else 0)"
      unfolding w_def by (rule roots_of_unity_orthogonal)
    then show "a ! j * cnj (a ! l) * (\<Sum>k<N. w j k * cnj (w l k)) =
        a ! j * cnj (a ! l) * (if j = l then of_nat N else 0)"
      by (simp only:)
  qed
  also have "\<dots> = (\<Sum>j<N. a ! j * cnj (a ! j) * of_nat N)"
  proof (intro sum.cong refl)
    fix j assume "j \<in> {..<N}"
    then have "(\<Sum>l<N. a ! j * cnj (a ! l) * (if j = l then of_nat N else 0)) =
        (\<Sum>l\<in>{..<N}. if l = j then a ! j * cnj (a ! l) * of_nat N else 0)"
      by (intro sum.cong refl) auto
    also have "\<dots> = a ! j * cnj (a ! j) * of_nat N"
      using \<open>j \<in> {..<N}\<close> by (simp only: sum.delta finite_lessThan if_True)
    finally show "(\<Sum>l<N. a ! j * cnj (a ! l) * (if j = l then of_nat N else 0)) =
        a ! j * cnj (a ! j) * of_nat N" .
  qed
  finally have total: "(\<Sum>k<N. S k * cnj (S k)) = (\<Sum>j<N. a ! j * cnj (a ! j)) * of_nat N"
    by (simp only: sum_distrib_right)
  have "complex_of_real (\<Sum>k<N. (cmod (dft_coeff a k))\<^sup>2) = (\<Sum>k<N. dft_coeff a k * cnj (dft_coeff a k))"
    by (simp only: of_real_sum complex_norm_square)
  also have "\<dots> = (\<Sum>k<N. S k * cnj (S k)) / of_nat N"
    by (simp only: sq sum_divide_distrib)
  also have "\<dots> = (\<Sum>j<N. a ! j * cnj (a ! j))"
    using N by (simp add: total)
  also have "\<dots> = complex_of_real (\<Sum>j<N. (cmod (a ! j))\<^sup>2)"
    by (simp only: of_real_sum complex_norm_square)
  finally have "(\<Sum>k<N. (cmod (dft_coeff a k))\<^sup>2) = (\<Sum>j<N. (cmod (a ! j))\<^sup>2)"
    by (simp only: of_real_eq_iff)
  then show ?thesis by (simp only: N_def)
qed

lemma bit_reverse_less: "bit_reverse n x < 2 ^ n"
proof (induction n arbitrary: x)
  case 0
  show ?case by simp
next
  case (Suc n)
  have "x mod 2 * 2 ^ n \<le> 1 * 2 ^ n" by (intro mult_le_mono) simp_all
  then have "x mod 2 * 2 ^ n \<le> 2 ^ n" by (simp only: mult_1)
  moreover have "bit_reverse n (x div 2) < 2 ^ n" by (rule Suc)
  ultimately have "x mod 2 * 2 ^ n + bit_reverse n (x div 2) < 2 ^ n + 2 ^ n" by linarith
  then show ?case by simp
qed

lemma bit_reverse_inj: "inj_on (bit_reverse n) {..<2 ^ n}"
proof (induction n)
  case 0
  show ?case by (simp add: inj_on_def)
next
  case (Suc n)
  show ?case
  proof (rule inj_onI)
    fix x y assume x: "x \<in> {..<2 ^ Suc n}" and y: "y \<in> {..<2 ^ Suc n}"
      and eq: "bit_reverse (Suc n) x = bit_reverse (Suc n) y"
    let ?rx = "bit_reverse n (x div 2)" and ?ry = "bit_reverse n (y div 2)"
    have r: "?rx < 2 ^ n" "?ry < 2 ^ n" by (rule bit_reverse_less)+
    from eq have e: "x mod 2 * 2 ^ n + ?rx = y mod 2 * 2 ^ n + ?ry" by simp
    then have "(x mod 2 * 2 ^ n + ?rx) div 2 ^ n = (y mod 2 * 2 ^ n + ?ry) div 2 ^ n" by simp
    then have m: "x mod 2 = y mod 2" using r by simp
    with e have "?rx = ?ry" by simp
    moreover have "x div 2 \<in> {..<2 ^ n}" "y div 2 \<in> {..<2 ^ n}" using x y by auto
    ultimately have "x div 2 = y div 2" using Suc by (simp add: inj_on_def)
    with m show "x = y" by (metis div_mult_mod_eq)
  qed
qed

lemma bit_reverse_bij: "bij_betw (bit_reverse n) {..<2 ^ n} {..<2 ^ n}"
proof -
  have "bit_reverse n ` {..<2 ^ n} \<subseteq> {..<2 ^ n}" using bit_reverse_less by auto
  then have "bit_reverse n ` {..<2 ^ n} = {..<2 ^ n}"
    using bit_reverse_inj by (intro endo_inj_surj) simp_all
  then show ?thesis using bit_reverse_inj by (simp add: bij_betw_def)
qed

lemma np_sum_Finite_aux: "foldl f64_add (Finite acc) (map Finite xs) = Finite (acc + sum_list xs)"
  by (induction xs arbitrary: acc) (simp_all add: add.assoc)

lemma np_sum_Finite: "np_sum (map Finite xs) = Finite (sum_list xs)"
  by (simp add: np_sum_def np_sum_Finite_aux)

lemma finite_values_Finite: "finite_values (map Finite xs) = Some xs"
  by (induction xs) simp_all

lemma sum_squares_pos:
  assumes "\<exists>x\<in>set data. x \<noteq> (0::real)"
  shows "0 < (\<Sum>x\<leftarrow>data. x\<^sup>2)"
  using assms
proof (induction data)
  case Nil
  then show ?case by simp
next
  case (Cons y ys)
  have nonneg: "0 \<le> (\<Sum>x\<leftarrow>ys. x\<^sup>2)" by (rule sum_list_nonneg) auto
  show ?case
  proof (cases "y = 0")
    case True
    with Cons show ?thesis by simp
  next
    case False
    then have "0 < y\<^sup>2" by simp
    with nonneg have "0 < y\<^sup>2 + (\<Sum>x\<leftarrow>ys. x\<^sup>2)" by (rule add_pos_nonneg [rotated])
    then show ?thesis by simp
  qed
qed

lemma normalized_unit_sum:
  assumes "\<exists>x\<in>set data. x \<noteq> 0"
  shows "(\<Sum>x\<leftarrow>data. (x / np_linalg_norm data)\<^sup>2) = 1"
proof -
  let ?s = "\<Sum>x\<leftarrow>data. x\<^sup>2"
  have s: "0 < ?s" using assms by (rule sum_squares_pos)
  have "(\<Sum>x\<leftarrow>data. (x / np_linalg_norm data)\<^sup>2) = (\<Sum>x\<leftarrow>data. x\<^sup>2 / ?s)"
    using s by (simp add: np_linalg_norm_def power_divide)
  also have "\<dots> = (\<Sum>x\<leftarrow>data. x\<^sup>2 * (1 / ?s))" by simp
  also have "\<dots> = ?s * (1 / ?s)" by (simp only: sum_list_mult_const)
  also have "\<dots> = ?s / ?s" by simp
  also have "\<dots> = 1" using s by simp
  finally show ?thesis .
qed

lemma normalized_state_vector_nonzero:
  assumes "\<exists>x\<in>set data. x \<noteq> 0"
  shows "normalized_state_vector data = map (\<lambda>x. Finite (x / np_linalg_norm data)) data"
proof -
  have pos: "0 < (\<Sum>x\<leftarrow>data. x\<^sup>2)" using assms by (rule sum_squares_pos)
  then have norm: "np_linalg_norm data \<noteq> 0" by (simp add: np_linalg_norm_def)
  have first: "map (\<lambda>x. f64_div (Finite x) (Finite (np_linalg_norm data))) data =
      map Finite (map (\<lambda>x. x / np_linalg_norm data) data)"
    using norm by simp
  have "map (\<lambda>y. f64_square (f64_abs y)) (map Finite (map (\<lambda>x. x / np_linalg_norm data) data)) =
      map Finite (map (\<lambda>x. (x / np_linalg_norm data)\<^sup>2) data)"
    by (simp add: power_divide)
  then have "np_sum (map (\<lambda>y. f64_square (f64_abs y)) (map Finite (map (\<lambda>x. x / np_linalg_norm data) data))) =
      Finite 1"
    using normalized_unit_sum [OF assms] by (simp only: np_sum_Finite)
  then show ?thesis
    unfolding normalized_state_vector_def Let_def first by simp
qed

section \<open>Claims about the indicator builders\<close>

text \<open>
  Claim C4.  \<open>get_primes n\<close> is the length-\<open>n\<close> vector that is 1 exactly at the prime
  indices and 0 elsewhere (0 and 1 included).  The sieve of the source, whose outer loop
  runs to \<open>floor (sqrt n)\<close>, returns the same vector as the sieve in the specification's
  words, whose loop runs to \<open>floor (sqrt (n - 1))\<close>.  For \<open>n = 100\<close> the marked indices are
  exactly the 25 primes below 100.
\<close>

theorem prime_indicator_sieve:
  "get_primes n = Inr (map (\<lambda>j. if is_prime j then 1 else 0) [0..<n]) \<and>
   get_primes n = spec_build_prime n \<and>
   get_primes 100 =
     Inr (map (\<lambda>j. if j \<in> set [2, 3, 5, 7, 11, 13, 17, 19, 23, 29, 31, 37, 41, 43, 47, 53, 59, 61, 67, 71, 73, 79, 83, 89, 97]
                     then 1 else 0) [0..<100]) \<and>
   length [2 :: nat, 3, 5, 7, 11, 13, 17, 19, 23, 29, 31, 37, 41, 43, 47, 53, 59, 61, 67, 71, 73, 79, 83, 89, 97] = (25::nat)"
proof -
  have "get_primes 100 =
     Inr (map (\<lambda>j. if j \<in> set [2, 3, 5, 7, 11, 13, 17, 19, 23, 29, 31, 37, 41, 43, 47, 53, 59, 61, 67, 71, 73, 79, 83, 89, 97]
                     then 1 else 0) [0..<100])"
    by code_simp
  then show ?thesis
    by (simp add: get_primes_correct spec_build_prime_correct)
qed

text \<open>Witness for C4: the vector for \<open>n = 10\<close> marks 2, 3, 5 and 7.\<close>

theorem prime_indicator_sieve_witness:
  "get_primes 10 = Inr (map (\<lambda>j. if is_prime j then 1 else 0) [0..<10]) \<and>
   get_primes 10 = spec_build_prime 10 \<and>
   get_primes 10 = Inr [0, 0, 1, 1, 0, 1, 0, 1, 0, 0]"
proof -
  have "get_primes 10 = Inr [0, 0, 1, 1, 0, 1, 0, 1, 0, 0]"
    by code_simp
  moreover have "get_primes 10 = Inr (map (\<lambda>j. if is_prime j then 1 else 0) [0..<10])"
    using prime_indicator_sieve [of 10] by (rule conjunct1)
  moreover have "get_primes 10 = spec_build_prime 10"
    using prime_indicator_sieve [of 10] by (rule conjunct1 [OF conjunct2])
  ultimately show ?thesis by blast
qed

text \<open>
  Claim C5.  For a length \<open>n \<ge> 1\<close>, \<open>get_squares n\<close> is the length-\<open>n\<close> vector that is 1 exactly
  at the indices \<open>i * i\<close> with \<open>1 \<le> i \<le> floor (sqrt (n - 1))\<close> and 0 elsewhere, index 0
  included; for \<open>n = 17\<close> exactly the indices 1, 4, 9 and 16 are set.  (For \<open>n = 0\<close> line 19
  raises \<^verbatim>\<open>ValueError\<close>.)
\<close>

theorem square_indicator:
  "(0 < n \<longrightarrow>
      get_squares n =
        Inr (map (\<lambda>j. if \<exists>i. 1 \<le> i \<and> i \<le> floor_sqrt (n - 1) \<and> j = i * i then 1 else 0) [0..<n])) \<and>
   get_squares 17 = Inr (map (\<lambda>j. if j \<in> {1, 4, 9, 16} then 1 else 0) [0..<17]) \<and>
   get_squares 0 = Inl ValueError"
proof -
  have "get_squares 17 = Inr (map (\<lambda>j. if j \<in> {1, 4, 9, 16} then 1 else 0) [0..<17])"
    by code_simp
  moreover have "get_squares 0 = Inl ValueError"
    by (simp add: get_squares_def)
  moreover have "0 < n \<longrightarrow>
      get_squares n =
        Inr (map (\<lambda>j. if \<exists>i. 1 \<le> i \<and> i \<le> floor_sqrt (n - 1) \<and> j = i * i then 1 else 0) [0..<n])"
    using get_squares_correct [of n] by blast
  ultimately show ?thesis by blast
qed

text \<open>Witness for C5: \<open>n = 17\<close>, where \<open>floor (sqrt 16) = 4\<close>.\<close>

theorem square_indicator_witness:
  "(0::nat) < 17 \<and>
   get_squares 17 =
     Inr (map (\<lambda>j. if \<exists>i. 1 \<le> i \<and> i \<le> floor_sqrt (17 - 1) \<and> j = i * i then 1 else 0) [0..<17]) \<and>
   floor_sqrt (17 - 1) = 4"
proof -
  have "floor_sqrt (17 - 1) = 4" by (rule floor_sqrt_eqI) simp_all
  moreover have "(0::nat) < 17" by simp
  moreover have "get_squares 17 =
     Inr (map (\<lambda>j. if \<exists>i. 1 \<le> i \<and> i \<le> floor_sqrt (17 - 1) \<and> j = i * i then 1 else 0) [0..<17])"
    using square_indicator [of 17] by simp
  ultimately show ?thesis by blast
qed

text \<open>
  Claim C10.  \<open>get_primes n\<close> raises nothing for any \<open>n \<ge> 0\<close> (no \<^verbatim>\<open>IndexError\<close> from the slice
  assignment or from reading \<open>p[i]\<close>) and returns a vector of length \<open>n\<close>.  For \<open>n \<le> 2\<close> that
  vector is all zero, its norm is 0, the normalisation yields NaNs and the pipeline fails:
  the zero-norm failure is reachable from the PRIME builder.
\<close>

theorem get_primes_total:
  "(\<exists>v. get_primes n = Inr v \<and> length v = n) \<and>
   (n \<le> 2 \<longrightarrow>
      get_primes n = Inr (replicate n 0) \<and>
      np_linalg_norm (replicate n 0) = 0 \<and>
      normalized_state_vector (replicate n 0) = replicate n NaN \<and>
      millionaire_scan_spectrum n_qubits (replicate n 0) = Inl QiskitError)"
proof -
  have "\<exists>v. get_primes n = Inr v \<and> length v = n"
    by (simp add: get_primes_correct)
  moreover have "n \<le> 2 \<longrightarrow> get_primes n = Inr (replicate n 0)"
    using get_primes_small [of n] by blast
  ultimately show ?thesis
    by (simp only: norm_zero_vector normalized_zero_vector zero_vector_spectrum simp_thms)
qed

text \<open>Witness for C10: \<open>n = 2\<close>, the length of a one-qubit state.\<close>

theorem get_primes_total_witness:
  "(2::nat) \<le> 2 \<and> get_primes 2 = Inr [0, 0] \<and> np_linalg_norm [0, 0] = 0 \<and>
   normalized_state_vector [0, 0] = [NaN, NaN] \<and>
   millionaire_scan_spectrum 1 [0, 0] = Inl QiskitError"
proof -
  have "replicate 2 (0::real) = [0, 0]" "replicate 2 NaN = [NaN, NaN]"
    by (simp_all add: numeral_2_eq_2)
  then show ?thesis
    using get_primes_total [of 2 1] by simp
qed

section \<open>Claims about the spectral pipeline\<close>

text \<open>
  Claim C6.  For every vector of length \<open>2 ^ n_qubits\<close> with a nonzero entry, both scripts'
  pipelines return a spectrum of that length whose entries are non-negative and whose
  sum is 1 (so within \<open>10\<^sup>-\<^sup>6\<close> of 1): the transform is unitary.  Arithmetic is exact here;
  the statement is about the pipeline without binary64 rounding.
\<close>

theorem spectrum_energy:
  assumes "length data = 2 ^ n_qubits" "\<exists>x\<in>set data. x \<noteq> 0"
  shows "\<exists>res. millionaire_scan_spectrum n_qubits data = Inr res \<and>
           jinx_square_spectrum n_qubits data = Inr res \<and>
           length res = 2 ^ n_qubits \<and>
           (\<forall>x\<in>set res. 0 \<le> x) \<and> sum_list res = 1 \<and> \<bar>sum_list res - 1\<bar> \<le> 1 / 10 ^ 6"
proof -
  define u where "u = map (\<lambda>x. x / np_linalg_norm data) data"
  define a where "a = map complex_of_real u"
  define res where "res = map (\<lambda>z. (cmod z)\<^sup>2) (qft_no_swaps n_qubits a)"
  have len: "length a = 2 ^ n_qubits" by (simp add: a_def u_def assms(1))
  have unit: "(\<Sum>x\<leftarrow>u. \<bar>x\<bar>\<^sup>2) = 1"
    using normalized_unit_sum [OF assms(2)] by (simp add: u_def comp_def)
  have sv: "normalized_state_vector data = map Finite u"
    using normalized_state_vector_nonzero [OF assms(2)] by (simp add: u_def)
  have lenu: "length u = 2 ^ n_qubits" by (simp add: u_def assms(1))
  have "isclose (\<Sum>a\<leftarrow>u. \<bar>a\<bar>\<^sup>2) 1"
    unfolding unit by (simp add: isclose_def)
  then have "initialize n_qubits (map Finite u) = Inr a"
    by (simp add: initialize_def finite_values_Finite a_def lenu)
  then have init: "initialize n_qubits (normalized_state_vector data) = Inr a"
    by (simp only: sv)
  have run: "millionaire_scan_spectrum n_qubits data = Inr res"
    by (simp add: spectrum_via_state_vector init res_def)
  have "sum_list res = (\<Sum>i<2 ^ n_qubits. (cmod (dft_coeff a (bit_reverse n_qubits i)))\<^sup>2)"
    by (simp add: res_def qft_no_swaps_def len comp_def interv_sum_list_conv_sum_set_nat atLeast0LessThan)
  also have "\<dots> = (\<Sum>k<2 ^ n_qubits. (cmod (dft_coeff a k))\<^sup>2)"
    by (rule sum.reindex_bij_betw [OF bit_reverse_bij])
  also have "\<dots> = (\<Sum>j<2 ^ n_qubits. (cmod (a ! j))\<^sup>2)"
    using dft_parseval [of a] by (simp add: len)
  also have "\<dots> = (\<Sum>j<length u. \<bar>u ! j\<bar>\<^sup>2)"
    using len by (simp add: a_def)
  also have "\<dots> = (\<Sum>x\<leftarrow>u. \<bar>x\<bar>\<^sup>2)"
    by (simp add: sum_list_sum_nth atLeast0LessThan)
  finally have total: "sum_list res = 1" using unit by simp
  have "\<forall>x\<in>set res. 0 \<le> x" by (auto simp: res_def)
  moreover have "length res = 2 ^ n_qubits" by (simp add: res_def qft_no_swaps_def len)
  ultimately show ?thesis using run total by (simp add: pipelines_equal)
qed

text \<open>Witness for C6: the squares indicator of length 2, \<open>[0, 1]\<close>, on one qubit.\<close>

theorem spectrum_energy_witness:
  "length [0, 1 :: real] = 2 ^ 1 \<and> (\<exists>x\<in>set [0, 1 :: real]. x \<noteq> 0) \<and>
   (\<exists>res. millionaire_scan_spectrum 1 [0, 1] = Inr res \<and>
          jinx_square_spectrum 1 [0, 1] = Inr res \<and>
          length res = 2 ^ 1 \<and>
          (\<forall>x\<in>set res. 0 \<le> x) \<and> sum_list res = 1 \<and> \<bar>sum_list res - 1\<bar> \<le> 1 / 10 ^ 6)"
proof -
  have len: "length [0, 1 :: real] = 2 ^ 1" by simp
  have nz: "\<exists>x\<in>set [0, 1 :: real]. x \<noteq> 0" by simp
  from spectrum_energy [OF len nz] len nz show ?thesis by blast
qed

text \<open>
  Claim C7, as amended.  On the all-zero vector nothing is raised where the division
  happens: numpy divides by the zero norm and yields an all-NaN state vector.  The
  failure surfaces afterwards, in the state preparation, as a \<^verbatim>\<open>QiskitError\<close>; no spectrum
  is returned and no division-by-zero condition exists.
\<close>

theorem zero_vector_fails_in_state_preparation:
  "normalized_state_vector (replicate n 0) = replicate n NaN \<and>
   millionaire_scan_spectrum n_qubits (replicate n 0) = Inl QiskitError \<and>
   jinx_square_spectrum n_qubits (replicate n 0) = Inl QiskitError"
  by (simp add: normalized_zero_vector zero_vector_spectrum pipelines_equal)

text \<open>
  Counterexample to C7 as stated: for the zero vector \<open>[0, 0, 0, 0]\<close> the normalisation
  silently produces NaNs, and the exception that ends the pipeline is not a division by
  zero.
\<close>

theorem zero_vector_counterexample:
  "normalized_state_vector [0, 0, 0, 0] = [NaN, NaN, NaN, NaN] \<and>
   millionaire_scan_spectrum 2 [0, 0, 0, 0] \<noteq> Inl ZeroDivisionError \<and>
   jinx_square_spectrum 2 [0, 0, 0, 0] \<noteq> Inl ZeroDivisionError"
proof -
  have r: "replicate 4 (0::real) = [0, 0, 0, 0]" "replicate 4 NaN = [NaN, NaN, NaN, NaN]"
    by (simp_all add: numeral_eq_Suc)
  have "normalized_state_vector (replicate 4 0) = replicate 4 NaN"
    by (rule normalized_zero_vector)
  moreover have "millionaire_scan_spectrum 2 (replicate 4 0) = Inl QiskitError"
    by (rule zero_vector_spectrum)
  moreover have "jinx_square_spectrum 2 (replicate 4 0) = Inl QiskitError"
    by (simp only: pipelines_equal zero_vector_spectrum)
  ultimately show ?thesis by (simp add: r)
qed

text \<open>
  Claim C9.  The pipeline of jinx\_square.py and the pipeline of millionaire\_scan.py are
  the same function of the number of qubits and the input vector.
\<close>

theorem pipelines_compute_same_function:
  "jinx_square_spectrum = millionaire_scan_spectrum"
  by (intro ext) (simp add: jinx_square_spectrum_def millionaire_scan_spectrum_def)

end
